theory Spec2Isabelle
  imports Main "HOL-Library.Word"
begin

unbundle bit_operations_syntax

section \<open>ScanADC: background scanning of analogue inputs under interrupt control\<close>

text \<open>
  A shallow embedding of \<^verbatim>\<open>src/src/ScanADC.cpp\<close> and \<^verbatim>\<open>src/src/ScanADC.h\<close>.
  The singleton object and the converter's I/O registers form one record that every
  operation takes and returns. Reads and writes outside the allocated table are undefined
  behaviour in C++; the embedding makes each of them a \<open>fault\<close> value.
  The registers are plain cells: a write stores the value, a read returns it. The types are
  those of the AVR target: \<^verbatim>\<open>int\<close> has 16 bits, so \<^verbatim>\<open>uint16_t\<close> arithmetic is not
  promoted and wraps at 16 bits. A user callback is code outside the library: its call is
  recorded with its arguments, and it is taken not to call back into the object.
\<close>

subsection \<open>Data\<close>

type_synonym u8 = "8 word"
type_synonym u16 = "16 word"
type_synonym u32 = "32 word"

text \<open>\<^verbatim>\<open>struct channel_config_t\<close>: the multiplexer value (every enumerator of
  \<^verbatim>\<open>mux_t\<close> is below 64; the handler reads it into a \<^verbatim>\<open>uint8_t\<close>) and the
  four-bit field \<^verbatim>\<open>sample_count_log2:4\<close>.\<close>

record channel_config_t =
  mux :: u8
  sample_count_log2 :: "4 word"

datatype isr_state_t = ISR_STATE_INIT | ISR_STATE_DELAY | ISR_STATE_ACCUMULATE

text \<open>Function pointers are code addresses; \<open>None\<close> is \<^verbatim>\<open>NULL\<close>.\<close>

type_synonym channel_callback_t = "nat option"
type_synonym channel_scan_callback_t = "nat option"

text \<open>The members of \<^verbatim>\<open>class ScanADC\<close>, in the order of the header, followed by the
  registers the code touches. The three arrays live in one heap block that
  \<^verbatim>\<open>begin\<close> allocates and \<^verbatim>\<open>end\<close> frees: the block is live exactly when
  \<open>config\<close> is not \<open>None\<close>; after \<^verbatim>\<open>end\<close> the pointers \<open>sn\<close> and \<open>sample\<close>
  dangle.\<close>

record scan_adc =
  chan_count :: u8
  channel_cb :: channel_callback_t
  channel_scan_cb :: channel_scan_callback_t
  state :: isr_state_t
  chan_i :: u8
  sample_cnt :: u16
  sample_cnt_target :: u16
  sample_accumulator :: u32
  config :: "channel_config_t list option"
  sn :: "u8 list"
  sample :: "u16 list"
  ADCSRA :: u8
  ADCSRB :: u8
  ADMUX :: u8
  SREG_I :: bool

datatype fault =
    InvalidPointer
  | OutOfBounds nat nat

text \<open>What one run of the handler does that is visible outside it, in program order:
  the stores into the result arrays, the stores into \<^verbatim>\<open>chan_i\<close>, and the calls of the
  user's callbacks with their arguments.\<close>

datatype event =
    WriteSample nat u16
  | WriteSn nat u8
  | WriteChanI u8
  | CallChannelCb nat u8 u16
  | CallScanCb nat "u16 list"

subsection \<open>Register bit positions\<close>

text \<open>The bit numbers of \<^verbatim>\<open>ADCSRA\<close>, \<^verbatim>\<open>ADCSRB\<close> and \<^verbatim>\<open>ADMUX\<close> as the device header
  of the ATmega32U4 (\<^verbatim>\<open>avr/io.h\<close>) defines them.\<close>

definition MUX5 :: nat where "MUX5 = 5"
definition REFS0 :: nat where "REFS0 = 6"
definition ADLAR :: nat where "ADLAR = 5"
definition ADPS0 :: nat where "ADPS0 = 0"
definition ADPS1 :: nat where "ADPS1 = 1"
definition ADPS2 :: nat where "ADPS2 = 2"
definition ADIE :: nat where "ADIE = 3"
definition ADATE :: nat where "ADATE = 5"
definition ADSC :: nat where "ADSC = 6"
definition ADEN :: nat where "ADEN = 7"

subsection \<open>The conversion-complete handler\<close>

text \<open>\<^verbatim>\<open>adc_scan.config[adc_scan.chan_i]\<close>.\<close>

definition config_at :: "scan_adc \<Rightarrow> fault + channel_config_t" where
  "config_at s =
     (case config s of
        None \<Rightarrow> Inl InvalidPointer
      | Some cfg \<Rightarrow>
          if unat (chan_i s) < length cfg then Inr (cfg ! unat (chan_i s))
          else Inl (OutOfBounds (unat (chan_i s)) (length cfg)))"

text \<open>\<^verbatim>\<open>(uint16_t)((high << 8) | low)\<close>.\<close>

definition adc_reading :: "u8 \<Rightarrow> u8 \<Rightarrow> u16" where
  "adc_reading low high = push_bit 8 (ucast high) OR ucast low"

text \<open>\<^verbatim>\<open>ISR(ADC_vect)\<close>. The arguments \<open>low\<close> and \<open>high\<close> are what \<^verbatim>\<open>ADCL\<close> and
  \<^verbatim>\<open>ADCH\<close> hold when the handler runs; only the accumulating state reads them.\<close>

definition ADC_vect :: "u8 \<Rightarrow> u8 \<Rightarrow> scan_adc \<Rightarrow> fault + (scan_adc \<times> event list)" where
  "ADC_vect low high s =
     (case state s of
        ISR_STATE_INIT \<Rightarrow>
          (case config_at s of
             Inl e \<Rightarrow> Inl e
           | Inr c \<Rightarrow>
               let m = mux c;
                   s1 = s\<lparr>ADCSRB := (ADCSRB s AND NOT (push_bit MUX5 1))
                                      OR (if m AND 0x20 \<noteq> 0 then push_bit MUX5 1 else 0)\<rparr>;
                   s2 = s1\<lparr>ADMUX := (ADMUX s1 AND 0xE0) OR (m AND 0x1F)\<rparr>;
                   s3 = s2\<lparr>sample_accumulator := 0\<rparr>;
                   s4 = s3\<lparr>sample_cnt := 0\<rparr>;
                   s5 = s4\<lparr>sample_cnt_target := 1\<rparr>;
                   s6 = s5\<lparr>sample_cnt_target :=
                            push_bit (unat (sample_count_log2 c)) (sample_cnt_target s5)\<rparr>
               in Inr (s6\<lparr>state := ISR_STATE_DELAY\<rparr>, []))
      | ISR_STATE_DELAY \<Rightarrow> Inr (s\<lparr>state := ISR_STATE_ACCUMULATE\<rparr>, [])
      | ISR_STATE_ACCUMULATE \<Rightarrow>
          (let accumulator = sample_accumulator s + ucast (adc_reading low high);
               s1 = s\<lparr>sample_cnt := sample_cnt s + 1\<rparr>
           in if sample_cnt s1 = sample_cnt_target s1 then
                (case config_at s1 of
                   Inl e \<Rightarrow> Inl e
                 | Inr c \<Rightarrow>
                     let samples_log2 = (ucast (sample_count_log2 c) :: u8);
                         accumulator =
                           (if samples_log2 \<noteq> 0
                            then drop_bit (unat samples_log2)
                                   (accumulator + ucast (drop_bit 1 (sample_cnt_target s1)))
                            else accumulator);
                         i = unat (chan_i s1)
                     in if \<not> i < length (sample s1) then Inl (OutOfBounds i (length (sample s1)))
                        else if \<not> i < length (sn s1) then Inl (OutOfBounds i (length (sn s1)))
                        else
                          let s2 = s1\<lparr>sample := (sample s1)[i := ucast accumulator]\<rparr>;
                              s3 = s2\<lparr>sn := (sn s2)[i := sn s2 ! i + 1]\<rparr>;
                              stores = [WriteSample i (ucast accumulator), WriteSn i (sn s3 ! i)];
                              calls1 = (case channel_cb s3 of
                                          None \<Rightarrow> []
                                        | Some f \<Rightarrow> [CallChannelCb f (chan_i s3) (ucast accumulator)]);
                              s4 = s3\<lparr>chan_i := chan_i s3 + 1\<rparr>;
                              step = [WriteChanI (chan_i s4)];
                              calls2 = (if chan_i s4 = chan_count s4
                                        then (case channel_scan_cb s4 of
                                                None \<Rightarrow> []
                                              | Some g \<Rightarrow> [CallScanCb g (sample s4)])
                                             @ [WriteChanI 0]
                                        else []);
                              s5 = (if chan_i s4 = chan_count s4 then s4\<lparr>chan_i := 0\<rparr> else s4)
                          in Inr (s5\<lparr>state := ISR_STATE_INIT\<rparr>, stores @ calls1 @ step @ calls2))
              else Inr (s1\<lparr>sample_accumulator := accumulator\<rparr>, [])))"

subsection \<open>Starting and stopping\<close>

text \<open>\<^verbatim>\<open>ScanADC::end\<close>.\<close>

definition ScanADC_end :: "scan_adc \<Rightarrow> scan_adc" where
  "ScanADC_end s =
     (let s1 = s\<lparr>ADCSRA := 0\<rparr>
      in if config s1 \<noteq> None then s1\<lparr>config := None\<rparr> else s1)"

text \<open>\<^verbatim>\<open>ScanADC::begin\<close>. The caller's array is the list \<open>channel_config\<close>;
  \<^verbatim>\<open>memcpy\<close> reads \<open>channel_count\<close> descriptors from it. The allocation is taken to
  succeed, as the code takes it. The block is zeroed, so every sequence number and every
  sample starts at 0. The statement that programs \<^verbatim>\<open>ADMUX\<close> reads
  \<^verbatim>\<open>config[0]\<close>.\<close>

definition ScanADC_begin :: "channel_config_t list \<Rightarrow> u8 \<Rightarrow> scan_adc \<Rightarrow> fault + scan_adc" where
  "ScanADC_begin channel_config channel_count s =
     (let s1 = ScanADC_end s;
          s2 = s1\<lparr>ADCSRB := 0\<rparr>;
          n = unat channel_count
      in if length channel_config < n then Inl (OutOfBounds (length channel_config) (length channel_config))
         else
           let s3 = s2\<lparr>config := Some (take n channel_config),
                       sn := replicate n 0,
                       sample := replicate n 0\<rparr>;
               s4 = s3\<lparr>chan_count := channel_count\<rparr>;
               s5 = s4\<lparr>state := ISR_STATE_INIT\<rparr>;
               s6 = s5\<lparr>chan_i := 0\<rparr>
           in (case config_at s6 of
                 Inl e \<Rightarrow> Inl e
               | Inr c0 \<Rightarrow>
                   let s7 = s6\<lparr>ADMUX := push_bit REFS0 1 OR push_bit ADLAR 0 OR mux c0\<rparr>;
                       s8 = s7\<lparr>ADCSRA := push_bit ADPS2 1 OR push_bit ADPS1 0 OR push_bit ADPS0 0
                                            OR push_bit ADEN 1 OR push_bit ADATE 1 OR push_bit ADIE 1\<rparr>;
                       s9 = s8\<lparr>ADCSRA := ADCSRA s8 OR push_bit ADSC 1\<rparr>
                   in Inr (s9\<lparr>SREG_I := True\<rparr>)))"

text \<open>The object has static storage, so it is zero-initialised before the constructor
  \<^verbatim>\<open>ScanADC() : channel_cb(NULL), channel_scan_cb(NULL)\<close> runs; the converter's registers
  are 0 after reset.\<close>

definition static_storage :: scan_adc where
  "static_storage =
     \<lparr>chan_count = 0, channel_cb = None, channel_scan_cb = None, state = ISR_STATE_INIT,
      chan_i = 0, sample_cnt = 0, sample_cnt_target = 0, sample_accumulator = 0,
      config = None, sn = [], sample = [], ADCSRA = 0, ADCSRB = 0, ADMUX = 0,
      SREG_I = False\<rparr>"

definition ScanADC_ctor :: "scan_adc \<Rightarrow> scan_adc" where
  "ScanADC_ctor s = s\<lparr>channel_cb := None, channel_scan_cb := None\<rparr>"

definition getInstance :: scan_adc where
  "getInstance = ScanADC_ctor static_storage"

subsection \<open>Operations of the application\<close>

text \<open>\<^verbatim>\<open>ScanADC::attach_channel_callback\<close> and \<^verbatim>\<open>ScanADC::attach_scan_callback\<close>.\<close>

definition attach_channel_callback :: "channel_callback_t \<Rightarrow> scan_adc \<Rightarrow> scan_adc" where
  "attach_channel_callback cb s =
     (let old_ADCSRA = ADCSRA s;
          s1 = s\<lparr>ADCSRA := ADCSRA s AND NOT (push_bit ADIE 1)\<rparr>;
          s2 = s1\<lparr>channel_cb := cb\<rparr>
      in s2\<lparr>ADCSRA := old_ADCSRA\<rparr>)"

definition attach_scan_callback :: "channel_scan_callback_t \<Rightarrow> scan_adc \<Rightarrow> scan_adc" where
  "attach_scan_callback cb s =
     (let old_ADCSRA = ADCSRA s;
          s1 = s\<lparr>ADCSRA := ADCSRA s AND NOT (push_bit ADIE 1)\<rparr>;
          s2 = s1\<lparr>channel_scan_cb := cb\<rparr>
      in s2\<lparr>ADCSRA := old_ADCSRA\<rparr>)"

text \<open>\<^verbatim>\<open>ScanADC::get_sample\<close>: the value read and the object afterwards.\<close>

definition get_sample :: "u8 \<Rightarrow> scan_adc \<Rightarrow> fault + (u16 \<times> scan_adc)" where
  "get_sample channel s =
     (let old_ADCSRA = ADCSRA s;
          s1 = s\<lparr>ADCSRA := ADCSRA s AND NOT (push_bit ADIE 1)\<rparr>
      in if config s1 = None then Inl InvalidPointer
         else if \<not> unat channel < length (sample s1)
         then Inl (OutOfBounds (unat channel) (length (sample s1)))
         else
           let v = sample s1 ! unat channel;
               s2 = s1\<lparr>ADCSRA := old_ADCSRA\<rparr>
           in Inr (v, s2))"

text \<open>\<^verbatim>\<open>ScanADC::get_sn\<close>. \<^verbatim>\<open>begin\<close> places the samples right after the sequence
  numbers in the one block (\<^verbatim>\<open>sample = sn + sn_size\<close>), so an index past the sequence
  numbers and inside the block reads a byte of the samples, low byte first on this target.
  An index past the block is a fault.\<close>

definition sample_byte :: "u16 list \<Rightarrow> nat \<Rightarrow> u8" where
  "sample_byte xs j =
     (if even j then ucast (xs ! (j div 2)) else ucast (drop_bit 8 (xs ! (j div 2))))"

definition get_sn :: "u8 \<Rightarrow> scan_adc \<Rightarrow> fault + u8" where
  "get_sn channel s =
     (if config s = None then Inl InvalidPointer
      else if unat channel < length (sn s) then Inr (sn s ! unat channel)
      else if unat channel - length (sn s) < 2 * length (sample s)
      then Inr (sample_byte (sample s) (unat channel - length (sn s)))
      else Inl (OutOfBounds (unat channel) (length (sn s) + 2 * length (sample s))))"

subsection \<open>A session: the handler run once per conversion\<close>

text \<open>The converter raises one conversion-complete interrupt per conversion. A session is
  the handler applied to the successive contents of \<^verbatim>\<open>ADCL\<close> and \<^verbatim>\<open>ADCH\<close>; the
  events of the runs are concatenated. The first fault ends the session.\<close>

fun conversions :: "scan_adc \<Rightarrow> (u8 \<times> u8) list \<Rightarrow> fault + (scan_adc \<times> event list)" where
  "conversions s [] = Inr (s, [])"
| "conversions s (r # rs) =
     (case ADC_vect (fst r) (snd r) s of
        Inl e \<Rightarrow> Inl e
      | Inr (s', t) \<Rightarrow>
          (case conversions s' rs of
             Inl e \<Rightarrow> Inl e
           | Inr (s'', t') \<Rightarrow> Inr (s'', t @ t')))"

text \<open>\<^verbatim>\<open>begin\<close> followed by the conversions of the session.\<close>

definition session ::
  "channel_config_t list \<Rightarrow> u8 \<Rightarrow> scan_adc \<Rightarrow> (u8 \<times> u8) list \<Rightarrow> fault + (scan_adc \<times> event list)" where
  "session channel_config channel_count s rs =
     (case ScanADC_begin channel_config channel_count s of
        Inl e \<Rightarrow> Inl e
      | Inr s' \<Rightarrow> conversions s' rs)"

definition events_of :: "fault + (scan_adc \<times> event list) \<Rightarrow> event list option" where
  "events_of r = (case r of Inl e \<Rightarrow> None | Inr (s, tr) \<Rightarrow> Some tr)"

subsection \<open>Vocabulary of the properties\<close>

text \<open>A session is in progress: the table is allocated with \<^verbatim>\<open>chan_count\<close> entries,
  and the channel index is inside it.\<close>

definition session_ok :: "scan_adc \<Rightarrow> bool" where
  "session_ok s =
     (case config s of
        None \<Rightarrow> False
      | Some cfg \<Rightarrow>
          length cfg = unat (chan_count s) \<and> length (sn s) = length cfg \<and>
          length (sample s) = length cfg \<and> unat (chan_i s) < length cfg)"

text \<open>The next run of the handler takes the branch
  \<^verbatim>\<open>if (++adc_scan.sample_cnt == adc_scan.sample_cnt_target)\<close> of the accumulating state.\<close>

definition finalizes :: "scan_adc \<Rightarrow> bool" where
  "finalizes s = (state s = ISR_STATE_ACCUMULATE \<and> sample_cnt s + 1 = sample_cnt_target s)"

text \<open>The sum of a list of raw readings, as a natural number.\<close>

definition readings_sum :: "(u8 \<times> u8) list \<Rightarrow> nat" where
  "readings_sum rs = sum_list (map (\<lambda>r. unat (adc_reading (fst r) (snd r))) rs)"

text \<open>The local \<^verbatim>\<open>accumulator\<close> of the handler after the lines
  \<^verbatim>\<open>if (samples_log2 != 0) { accumulator += (sample_cnt_target >> 1); accumulator >>= samples_log2; }\<close>,
  as a function of the descriptor, the target count and the accumulator before them.\<close>

definition final_accumulator :: "channel_config_t \<Rightarrow> u16 \<Rightarrow> u32 \<Rightarrow> u32" where
  "final_accumulator c t a =
     (if (ucast (sample_count_log2 c) :: u8) \<noteq> 0
      then drop_bit (unat (ucast (sample_count_log2 c) :: u8)) (a + ucast (drop_bit 1 t))
      else a)"

text \<open>The channel index the finalizing branch leaves behind, and the events it produces
  when it publishes \<open>v\<close>.\<close>

definition next_chan :: "scan_adc \<Rightarrow> u8" where
  "next_chan s = (if chan_i s + 1 = chan_count s then 0 else chan_i s + 1)"

definition final_events :: "scan_adc \<Rightarrow> u16 \<Rightarrow> event list" where
  "final_events s v =
     [WriteSample (unat (chan_i s)) v, WriteSn (unat (chan_i s)) (sn s ! unat (chan_i s) + 1)]
     @ (case channel_cb s of None \<Rightarrow> [] | Some f \<Rightarrow> [CallChannelCb f (chan_i s) v])
     @ [WriteChanI (chan_i s + 1)]
     @ (if chan_i s + 1 = chan_count s
        then (case channel_scan_cb s of
                None \<Rightarrow> []
              | Some g \<Rightarrow> [CallScanCb g ((sample s)[unat (chan_i s) := v])])
             @ [WriteChanI 0]
        else [])"

text \<open>The specification's average of \<open>2 ^ k\<close> readings whose sum is \<open>tot\<close>: the sum itself
  at depth 0, otherwise the sum plus half the count, shifted right by \<open>k\<close>.\<close>

definition rounded_average :: "nat \<Rightarrow> nat \<Rightarrow> nat" where
  "rounded_average k tot = (if k = 0 then tot else (tot + 2 ^ k div 2) div 2 ^ k)"

text \<open>The object after the handler has selected descriptor \<open>c\<close>, spent the settling
  conversion and accumulated the readings \<open>rs\<close> without completing the count.\<close>

definition accumulating :: "scan_adc \<Rightarrow> channel_config_t \<Rightarrow> (u8 \<times> u8) list \<Rightarrow> scan_adc" where
  "accumulating s c rs =
     s\<lparr>ADCSRB := (ADCSRB s AND NOT (push_bit MUX5 1))
                    OR (if mux c AND 0x20 \<noteq> 0 then push_bit MUX5 1 else 0),
       ADMUX := (ADMUX s AND 0xE0) OR (mux c AND 0x1F),
       sample_accumulator := of_nat (readings_sum rs),
       sample_cnt := of_nat (length rs),
       sample_cnt_target := push_bit (unat (sample_count_log2 c)) 1,
       state := ISR_STATE_ACCUMULATE\<rparr>"

text \<open>The channels at which a trace publishes a sample, in order.\<close>

fun finalized :: "event list \<Rightarrow> nat list" where
  "finalized [] = []"
| "finalized (WriteSample i v # es) = i # finalized es"
| "finalized (e # es) = finalized es"

text \<open>The calls of the scan callback in a trace, in order.\<close>

fun scan_calls :: "event list \<Rightarrow> (nat \<times> u16 list) list" where
  "scan_calls [] = []"
| "scan_calls (CallScanCb g xs # es) = (g, xs) # scan_calls es"
| "scan_calls (e # es) = scan_calls es"

text \<open>The result arrays after the stores of a trace, in order, from given arrays.\<close>

fun replay :: "u8 list \<times> u16 list \<Rightarrow> event list \<Rightarrow> u8 list \<times> u16 list" where
  "replay m [] = m"
| "replay (q, x) (WriteSample i v # es) = replay (q, x[i := v]) es"
| "replay (q, x) (WriteSn i n # es) = replay (q[i := n], x) es"
| "replay m (e # es) = replay m es"

text \<open>Conversions per channel and per scan: what the handler spends (one in each of the
  selecting and settling states, then the readings), and what the specification counts
  (one settling conversion, then the readings).\<close>

definition window_events :: "channel_config_t \<Rightarrow> nat" where
  "window_events c = 2 + 2 ^ unat (sample_count_log2 c)"

definition scan_events :: "channel_config_t list \<Rightarrow> nat" where
  "scan_events cfg = sum_list (map window_events cfg)"

definition claimed_scan_events :: "channel_config_t list \<Rightarrow> nat" where
  "claimed_scan_events cfg = sum_list (map (\<lambda>c. 1 + 2 ^ unat (sample_count_log2 c)) cfg)"

text \<open>The events that store into the result arrays.\<close>

fun is_store :: "event \<Rightarrow> bool" where
  "is_store (WriteSample i v) = True"
| "is_store (WriteSn i n) = True"
| "is_store e = False"


subsection \<open>Example sessions\<close>

text \<open>The object as \<^verbatim>\<open>begin\<close> leaves it for one channel of depth 2 (four readings
  per sample), written out.\<close>

definition depth2_session :: scan_adc where
  "depth2_session =
     \<lparr>chan_count = 1, channel_cb = None, channel_scan_cb = None, state = ISR_STATE_INIT,
      chan_i = 0, sample_cnt = 0, sample_cnt_target = 0, sample_accumulator = 0,
      config = Some [\<lparr>mux = 7, sample_count_log2 = 2\<rparr>], sn = [0], sample = [0],
      ADCSRA = 0xEC, ADCSRB = 0, ADMUX = 0x47, SREG_I = True\<rparr>"

text \<open>Two channels, of depth 0 and depth 1, with both callbacks installed: the object
  before \<^verbatim>\<open>begin\<close>, and a session that has published channel 0 once and awaits the
  second of the two readings of channel 1.\<close>

definition two_channels :: "channel_config_t list" where
  "two_channels = [\<lparr>mux = 7, sample_count_log2 = 0\<rparr>, \<lparr>mux = 6, sample_count_log2 = 1\<rparr>]"

definition with_callbacks :: scan_adc where
  "with_callbacks = attach_scan_callback (Some 42) (attach_channel_callback (Some 41) getInstance)"

definition last_reading_session :: scan_adc where
  "last_reading_session =
     \<lparr>chan_count = 2, channel_cb = Some 41, channel_scan_cb = Some 42,
      state = ISR_STATE_ACCUMULATE, chan_i = 1, sample_cnt = 1, sample_cnt_target = 2,
      sample_accumulator = 5, config = Some two_channels, sn = [1, 0], sample = [5, 0],
      ADCSRA = 0xEC, ADCSRB = 0, ADMUX = 0x46, SREG_I = True\<rparr>"

section \<open>Properties\<close>

subsection \<open>Machine arithmetic\<close>

lemma unat_ucast_mod:
  "unat (ucast (w :: 'a::len word) :: 'b::len word) = unat w mod 2 ^ LENGTH('b)"
  by (simp add: unsigned_ucast_eq take_bit_nat_def)

lemma unat_drop_bit_div: "unat (drop_bit n (w :: 'a::len word)) = unat w div 2 ^ n"
  unfolding unat_drop_bit_eq by (simp only: drop_bit_eq_div)

lemma unat_suc_cnt:
  "unat (c + 1) = unat c + 1" if "unat (c :: 'a::len word) < unat (t :: 'a word)"
proof -
  have "unat t < 2 ^ LENGTH('a)" by (rule unsigned_less)
  then have "unat c + 1 < 2 ^ LENGTH('a)" using that by linarith
  moreover have "unat (1 :: 'a word) = 1" by simp
  ultimately have "unat c + unat (1 :: 'a word) < 2 ^ LENGTH('a)" by simp
  then show ?thesis using unat_add_lem[of c 1] by simp
qed

lemma unat_of_nat_u16: "n < 65536 \<Longrightarrow> unat (of_nat n :: u16) = n"
  by (simp add: unat_of_nat)

lemma unat_of_nat_u32: "n < 4294967296 \<Longrightarrow> unat (of_nat n :: u32) = n"
  by (simp add: unat_of_nat)

lemma log2_less: "unat (x :: 4 word) < 16"
  using unsigned_less[of x] by simp

lemma log2_u8_unat: "unat (ucast (x :: 4 word) :: u8) = unat x"
  using log2_less[of x] by (simp add: unat_ucast_mod)

lemma log2_u8_zero: "((ucast (x :: 4 word) :: u8) \<noteq> 0) = (unat x \<noteq> 0)"
proof -
  have "((ucast x :: u8) = 0) = (unat (ucast x :: u8) = 0)" by (simp only: unat_eq_0)
  also have "\<dots> = (unat x = 0)" by (simp only: log2_u8_unat)
  finally show ?thesis by simp
qed

lemma unat_u16_u32: "unat (ucast (x :: u16) :: u32) = unat x"
proof -
  have "unat x < 2 ^ 16" using unsigned_less[of x] by simp
  then have "unat x < 2 ^ 32" by simp
  then show ?thesis by (simp add: unat_ucast_mod)
qed

lemma unat_two_power:
  "unat ((2 :: u16) ^ unat (x :: 4 word)) = 2 ^ unat x"
proof -
  have "(2::nat) ^ unat x < 2 ^ 16"
    using log2_less[of x] by (intro power_strict_increasing) simp_all
  moreover have "(2 :: u16) ^ unat x = of_nat (2 ^ unat x)" by simp
  ultimately show ?thesis by (simp only: unat_of_nat) simp
qed

lemma unat_target:
  "unat (push_bit (unat (x :: 4 word)) (1 :: u16)) = 2 ^ unat x"
  using unat_two_power[of x] by (simp add: push_bit_eq_mult)

lemma two_power_log2: "(2::nat) ^ unat (x :: 4 word) \<le> 32768"
proof -
  have "(2::nat) ^ unat x \<le> 2 ^ 15"
    using log2_less[of x] by (intro power_increasing) simp_all
  then show ?thesis by simp
qed

subsection \<open>One run of the handler\<close>

lemma ADC_vect_init:
  "state s = ISR_STATE_INIT \<Longrightarrow> config s = Some cfg \<Longrightarrow> unat (chan_i s) < length cfg \<Longrightarrow>
   ADC_vect lo hi s = Inr ((accumulating s (cfg ! unat (chan_i s)) [])\<lparr>state := ISR_STATE_DELAY\<rparr>, [])"
  by (simp add: ADC_vect_def config_at_def Let_def accumulating_def readings_sum_def)

lemma ADC_vect_delay:
  "state s = ISR_STATE_DELAY \<Longrightarrow> ADC_vect lo hi s = Inr (s\<lparr>state := ISR_STATE_ACCUMULATE\<rparr>, [])"
  by (simp add: ADC_vect_def)

lemma ADC_vect_partial:
  "state s = ISR_STATE_ACCUMULATE \<Longrightarrow> sample_cnt s + 1 \<noteq> sample_cnt_target s \<Longrightarrow>
   ADC_vect lo hi s =
     Inr (s\<lparr>sample_cnt := sample_cnt s + 1,
            sample_accumulator := sample_accumulator s + ucast (adc_reading lo hi)\<rparr>, [])"
  by (simp add: ADC_vect_def Let_def)

lemma ADC_vect_final:
  assumes "session_ok s" and "config s = Some cfg" and "finalizes s"
    and "v = ucast (final_accumulator (cfg ! unat (chan_i s)) (sample_cnt_target s)
                      (sample_accumulator s + ucast (adc_reading lo hi)))"
  shows "ADC_vect lo hi s =
     Inr (s\<lparr>sample_cnt := sample_cnt s + 1,
            sample := (sample s)[unat (chan_i s) := v],
            sn := (sn s)[unat (chan_i s) := sn s ! unat (chan_i s) + 1],
            chan_i := next_chan s,
            state := ISR_STATE_INIT\<rparr>, final_events s v)"
  using assms
  by (cases "channel_cb s"; cases "channel_scan_cb s")
     (simp_all add: ADC_vect_def config_at_def Let_def session_ok_def finalizes_def
        final_accumulator_def next_chan_def final_events_def)

lemma next_is_count:
  assumes "unat (chan_i s) < unat (chan_count s)"
  shows "(chan_i s + 1 = chan_count s) = (unat (chan_i s) + 1 = unat (chan_count s))"
  using unat_suc_cnt[OF assms] by (auto simp: word_unat_eq_iff)

lemma unat_next_chan:
  assumes "unat (chan_i s) < unat (chan_count s)"
  shows "unat (next_chan s) = (unat (chan_i s) + 1) mod unat (chan_count s)"
  using assms unat_suc_cnt[OF assms] by (simp add: next_chan_def next_is_count)

lemma session_ok_index: "session_ok s \<Longrightarrow> unat (chan_i s) < unat (chan_count s)"
  by (simp add: session_ok_def split: option.splits)

text \<open>A run of the handler that does not finalize changes neither the result arrays, nor
  the channel index, nor the callbacks, and produces no event.\<close>

lemma ADC_vect_quiet:
  assumes "session_ok s" and "\<not> finalizes s"
  shows "\<exists>s'. ADC_vect lo hi s = Inr (s', []) \<and> session_ok s' \<and> config s' = config s \<and>
           chan_count s' = chan_count s \<and> chan_i s' = chan_i s \<and> sn s' = sn s \<and>
           sample s' = sample s \<and> channel_cb s' = channel_cb s \<and>
           channel_scan_cb s' = channel_scan_cb s"
proof (cases "state s")
  case ISR_STATE_INIT
  obtain cfg where cfg: "config s = Some cfg" and i: "unat (chan_i s) < length cfg"
    using assms(1) by (auto simp: session_ok_def split: option.splits)
  show ?thesis
    using assms(1) ADC_vect_init[OF ISR_STATE_INIT cfg i, of lo hi]
    by (simp add: session_ok_def accumulating_def cong: option.case_cong)
next
  case ISR_STATE_DELAY
  then show ?thesis
    using assms(1) by (simp add: ADC_vect_delay session_ok_def cong: option.case_cong)
next
  case ISR_STATE_ACCUMULATE
  then have "sample_cnt s + 1 \<noteq> sample_cnt_target s" using assms(2) by (simp add: finalizes_def)
  then show ?thesis
    using assms(1) ISR_STATE_ACCUMULATE
    by (simp add: ADC_vect_partial session_ok_def cong: option.case_cong)
qed

text \<open>A run of the handler that finalizes.\<close>

lemma ADC_vect_loud:
  assumes "session_ok s" and "finalizes s"
  shows "\<exists>s' v. ADC_vect lo hi s = Inr (s', final_events s v) \<and> session_ok s' \<and>
           config s' = config s \<and> chan_count s' = chan_count s \<and> chan_i s' = next_chan s \<and>
           sn s' = (sn s)[unat (chan_i s) := sn s ! unat (chan_i s) + 1] \<and>
           sample s' = (sample s)[unat (chan_i s) := v] \<and> channel_cb s' = channel_cb s \<and>
           channel_scan_cb s' = channel_scan_cb s \<and> state s' = ISR_STATE_INIT"
proof -
  obtain cfg where cfg: "config s = Some cfg"
    using assms(1) by (auto simp: session_ok_def split: option.splits)
  define v :: u16 where "v = ucast (final_accumulator (cfg ! unat (chan_i s)) (sample_cnt_target s)
                      (sample_accumulator s + ucast (adc_reading lo hi)))"
  have "unat (next_chan s) < unat (chan_count s)"
    using session_ok_index[OF assms(1)] by (simp add: unat_next_chan)
  then show ?thesis
    using assms(1) cfg ADC_vect_final[OF assms(1) cfg assms(2) v_def]
    by (intro exI[of _ "s\<lparr>sample_cnt := sample_cnt s + 1,
            sample := (sample s)[unat (chan_i s) := v],
            sn := (sn s)[unat (chan_i s) := sn s ! unat (chan_i s) + 1],
            chan_i := next_chan s,
            state := ISR_STATE_INIT\<rparr>"] exI[of _ v]) (simp add: session_ok_def)
qed

subsection \<open>Runs of the handler\<close>

lemma conversions_append:
  "conversions s (xs @ ys) =
     (case conversions s xs of
        Inl e \<Rightarrow> Inl e
      | Inr (s', t) \<Rightarrow>
          (case conversions s' ys of
             Inl e \<Rightarrow> Inl e
           | Inr (s'', t') \<Rightarrow> Inr (s'', t @ t')))"
  by (induction xs arbitrary: s) (auto split: sum.splits prod.splits)

lemma readings_sum_le:
  "(\<forall>r\<in>set rs. unat (adc_reading (fst r) (snd r)) \<le> m) \<Longrightarrow> readings_sum rs \<le> length rs * m"
  by (induction rs) (auto simp: readings_sum_def)

lemma readings_sum_u16: "readings_sum rs \<le> length rs * 65535"
proof (rule readings_sum_le, rule ballI)
  fix r :: "u8 \<times> u8"
  have "unat (adc_reading (fst r) (snd r)) < 2 ^ 16"
    using unsigned_less[of "adc_reading (fst r) (snd r)"] by simp
  then show "unat (adc_reading (fst r) (snd r)) \<le> 65535" by simp
qed

lemma readings_sum_snoc:
  "readings_sum (rs @ [r]) = readings_sum rs + unat (adc_reading (fst r) (snd r))"
  by (simp add: readings_sum_def)

lemma accumulating_simps:
  "config (accumulating s c rs) = config s"
  "chan_count (accumulating s c rs) = chan_count s"
  "chan_i (accumulating s c rs) = chan_i s"
  "channel_cb (accumulating s c rs) = channel_cb s"
  "channel_scan_cb (accumulating s c rs) = channel_scan_cb s"
  "sn (accumulating s c rs) = sn s"
  "sample (accumulating s c rs) = sample s"
  "state (accumulating s c rs) = ISR_STATE_ACCUMULATE"
  "sample_cnt (accumulating s c rs) = of_nat (length rs)"
  "sample_accumulator (accumulating s c rs) = of_nat (readings_sum rs)"
  "sample_cnt_target (accumulating s c rs) = push_bit (unat (sample_count_log2 c)) 1"
  by (simp_all add: accumulating_def)

lemma session_ok_accumulating:
  "session_ok (accumulating s c rs) = session_ok s"
  by (simp add: session_ok_def accumulating_simps cong: option.case_cong)

lemma accumulating_target:
  "unat (sample_cnt_target (accumulating s c rs)) = 2 ^ unat (sample_count_log2 c)"
  by (simp only: accumulating_simps unat_target)

lemma accumulating_cnt:
  "length rs < 65536 \<Longrightarrow> unat (sample_cnt (accumulating s c rs)) = length rs"
  by (simp only: accumulating_simps unat_of_nat_u16)

lemma accumulating_acc:
  assumes "length rs \<le> 32768"
  shows "unat (sample_accumulator (accumulating s c rs)) = readings_sum rs"
proof -
  have "readings_sum rs \<le> length rs * 65535" by (rule readings_sum_u16)
  also have "\<dots> \<le> 32768 * 65535" using assms by simp
  finally have "readings_sum rs < 4294967296" by simp
  then show ?thesis by (simp only: accumulating_simps unat_of_nat_u32)
qed

lemma accumulating_finalizes:
  assumes "Suc (length rs) = 2 ^ unat (sample_count_log2 c)"
  shows "finalizes (accumulating s c rs)"
proof -
  let ?a = "accumulating s c rs"
  have l: "length rs < 65536" using assms two_power_log2[of "sample_count_log2 c"] by linarith
  have c: "unat (sample_cnt ?a) = length rs" using l by (rule accumulating_cnt)
  have t: "unat (sample_cnt_target ?a) = 2 ^ unat (sample_count_log2 c)"
    by (rule accumulating_target)
  have "unat (sample_cnt ?a) < unat (sample_cnt_target ?a)"
    using assms c t by linarith
  then have "unat (sample_cnt ?a + 1) = unat (sample_cnt ?a) + 1" by (rule unat_suc_cnt)
  then have "unat (sample_cnt ?a + 1) = unat (sample_cnt_target ?a)"
    using assms c t by linarith
  then have "sample_cnt ?a + 1 = sample_cnt_target ?a" by (simp only: word_unat_eq_iff)
  then show ?thesis by (simp add: finalizes_def accumulating_simps)
qed

lemma accumulating_next:
  assumes "length rs < 32768"
  shows "unat (sample_accumulator (accumulating s c rs) + ucast (adc_reading (fst r) (snd r)))
           = readings_sum (rs @ [r])"
proof -
  let ?x = "sample_accumulator (accumulating s c rs)"
  let ?y = "ucast (adc_reading (fst r) (snd r)) :: u32"
  have x: "unat ?x = readings_sum rs" using assms by (intro accumulating_acc) simp
  have y: "unat ?y = unat (adc_reading (fst r) (snd r))" by (rule unat_u16_u32)
  have "readings_sum (rs @ [r]) \<le> length (rs @ [r]) * 65535" by (rule readings_sum_u16)
  also have "\<dots> \<le> 32768 * 65535" using assms by simp
  finally have "readings_sum (rs @ [r]) < 4294967296" by simp
  then have "unat ?x + unat ?y < 2 ^ LENGTH(32)" by (simp add: x y readings_sum_snoc)
  then have "unat (?x + ?y) = unat ?x + unat ?y" by (simp only: unat_add_lem)
  then show ?thesis by (simp only: x y readings_sum_snoc)
qed

text \<open>Readings that do not complete the count are added up and nothing else happens.\<close>

lemma partial_run:
  "state s = ISR_STATE_ACCUMULATE \<Longrightarrow>
   unat (sample_cnt s) + length rs < unat (sample_cnt_target s) \<Longrightarrow>
   conversions s rs =
     Inr (s\<lparr>sample_cnt := sample_cnt s + of_nat (length rs),
            sample_accumulator := sample_accumulator s + of_nat (readings_sum rs)\<rparr>, [])"
proof (induction rs arbitrary: s)
  case Nil
  then show ?case by (simp add: readings_sum_def)
next
  case (Cons r rs)
  have u: "unat (sample_cnt s + 1) = unat (sample_cnt s) + 1"
    using Cons.prems(2) by (intro unat_suc_cnt[of _ "sample_cnt_target s"]) simp
  then have "unat (sample_cnt s + 1) \<noteq> unat (sample_cnt_target s)"
    using Cons.prems(2) by simp
  then have ne: "sample_cnt s + 1 \<noteq> sample_cnt_target s" by auto
  let ?s1 = "s\<lparr>sample_cnt := sample_cnt s + 1,
            sample_accumulator := sample_accumulator s + ucast (adc_reading (fst r) (snd r))\<rparr>"
  have step: "ADC_vect (fst r) (snd r) s = Inr (?s1, [])"
    using Cons.prems(1) ne by (rule ADC_vect_partial)
  have "conversions ?s1 rs = Inr (?s1\<lparr>sample_cnt := sample_cnt ?s1 + of_nat (length rs),
            sample_accumulator := sample_accumulator ?s1 + of_nat (readings_sum rs)\<rparr>, [])"
    using Cons.prems u by (intro Cons.IH) simp_all
  then show ?case
    using step by (simp add: readings_sum_def add.assoc)
qed

lemma window_prefix:
  assumes "state s = ISR_STATE_INIT" and "config s = Some cfg" and "unat (chan_i s) < length cfg"
    and "c = cfg ! unat (chan_i s)" and "length rs < 2 ^ unat (sample_count_log2 c)"
  shows "conversions s (r0 # r1 # rs) = Inr (accumulating s c rs, [])"
proof -
  let ?s2 = "accumulating s c []"
  have a: "ADC_vect (fst r0) (snd r0) s = Inr (?s2\<lparr>state := ISR_STATE_DELAY\<rparr>, [])"
    using assms(1-4) by (simp add: ADC_vect_init)
  have b: "ADC_vect (fst r1) (snd r1) (?s2\<lparr>state := ISR_STATE_DELAY\<rparr>) = Inr (?s2, [])"
    by (simp add: ADC_vect_delay accumulating_def)
  have "unat (sample_cnt ?s2) = 0" by (simp add: accumulating_simps)
  moreover have "unat (sample_cnt_target ?s2) = 2 ^ unat (sample_count_log2 c)"
    by (rule accumulating_target)
  ultimately have "unat (sample_cnt ?s2) + length rs < unat (sample_cnt_target ?s2)"
    using assms(5) by linarith
  moreover have "state ?s2 = ISR_STATE_ACCUMULATE" by (simp add: accumulating_def)
  ultimately have "conversions ?s2 rs =
     Inr (?s2\<lparr>sample_cnt := sample_cnt ?s2 + of_nat (length rs),
            sample_accumulator := sample_accumulator ?s2 + of_nat (readings_sum rs)\<rparr>, [])"
    by (intro partial_run)
  then have "conversions ?s2 rs = Inr (accumulating s c rs, [])"
    by (simp add: accumulating_def readings_sum_def)
  then show ?thesis using a b by simp
qed

subsection \<open>The average\<close>

lemma rounded_average_le:
  assumes "tot \<le> 2 ^ k * m"
  shows "rounded_average k tot \<le> m"
proof (cases "k = 0")
  case True
  then show ?thesis using assms by (simp add: rounded_average_def)
next
  case False
  have "(2::nat) ^ k div 2 < 2 ^ k" by simp
  then have "tot + 2 ^ k div 2 < 2 ^ k * m + 2 ^ k" using assms by linarith
  then have "tot + 2 ^ k div 2 < 2 ^ k * (m + 1)" by simp
  then have "(tot + 2 ^ k div 2) div 2 ^ k < m + 1"
    by (simp add: less_mult_imp_div_less mult.commute)
  then show ?thesis using False by (simp add: rounded_average_def)
qed

lemma biased_unat:
  assumes k: "k = unat (sample_count_log2 c)" and t: "unat (t :: u16) = 2 ^ k"
    and a: "unat (a :: u32) = tot" and b: "tot \<le> 2 ^ k * 65535"
  shows "unat (a + ucast (drop_bit 1 t)) = tot + 2 ^ k div 2"
proof -
  have p: "(2::nat) ^ k \<le> 32768" using k two_power_log2 by simp
  have "unat (ucast (drop_bit 1 t) :: u32) = unat t div 2 ^ 1"
    by (simp only: unat_u16_u32 unat_drop_bit_div)
  then have h: "unat (ucast (drop_bit 1 t) :: u32) = 2 ^ k div 2"
    using t by simp
  have "tot + 2 ^ k div 2 < 2 ^ 32" using b p by simp
  then show ?thesis
    using unat_add_lem[of a "ucast (drop_bit 1 t)"] a h by simp
qed

lemma final_accumulator_unat:
  assumes k: "k = unat (sample_count_log2 c)" and t: "unat t = 2 ^ k"
    and a: "unat a = tot" and b: "tot \<le> 2 ^ k * 65535"
  shows "unat (final_accumulator c t a) = rounded_average k tot"
proof (cases "k = 0")
  case True
  then have "final_accumulator c t a = a" using k by (simp add: final_accumulator_def log2_u8_zero)
  then show ?thesis using a True by (simp add: rounded_average_def)
next
  case False
  have "final_accumulator c t a = drop_bit k (a + ucast (drop_bit 1 t))"
    using False k by (simp add: final_accumulator_def log2_u8_zero log2_u8_unat)
  then have "unat (final_accumulator c t a) = (tot + 2 ^ k div 2) div 2 ^ k"
    using biased_unat[OF k t a b] by (simp only: unat_drop_bit_div)
  then show ?thesis using False by (simp add: rounded_average_def)
qed

lemma final_value_unat:
  assumes k: "k = unat (sample_count_log2 c)" and t: "unat t = 2 ^ k"
    and a: "unat a = tot" and b: "tot \<le> 2 ^ k * 65535"
  shows "unat (ucast (final_accumulator c t a) :: u16) = rounded_average k tot"
proof -
  have "rounded_average k tot \<le> 65535" using b by (rule rounded_average_le)
  then show ?thesis
    using final_accumulator_unat[OF k t a b] by (simp add: unat_ucast_mod)
qed

subsection \<open>One channel's window\<close>

text \<open>From the selecting state, two conversions and then as many readings as the channel's
  count: nothing is published before the last reading, and the last run of the handler
  publishes the rounded average of the readings.\<close>

lemma window_full:
  assumes ok: "session_ok s" and st: "state s = ISR_STATE_INIT" and cfg: "config s = Some cfg"
    and c: "c = cfg ! unat (chan_i s)" and k: "k = unat (sample_count_log2 c)"
    and len: "length rs = 2 ^ k"
  shows "\<exists>s' v. conversions s (r0 # r1 # rs) = Inr (s', final_events s v) \<and>
           conversions s (r0 # r1 # butlast rs) = Inr (accumulating s c (butlast rs), []) \<and>
           ADC_vect (fst (last rs)) (snd (last rs)) (accumulating s c (butlast rs))
             = Inr (s', final_events s v) \<and>
           v = ucast (final_accumulator c (sample_cnt_target (accumulating s c (butlast rs)))
                 (sample_accumulator (accumulating s c (butlast rs))
                    + ucast (adc_reading (fst (last rs)) (snd (last rs))))) \<and>
           unat v = rounded_average k (readings_sum rs) \<and>
           session_ok s' \<and> state s' = ISR_STATE_INIT \<and> config s' = Some cfg \<and>
           chan_count s' = chan_count s \<and> channel_cb s' = channel_cb s \<and>
           channel_scan_cb s' = channel_scan_cb s \<and> chan_i s' = next_chan s \<and>
           sample s' = (sample s)[unat (chan_i s) := v] \<and>
           sn s' = (sn s)[unat (chan_i s) := sn s ! unat (chan_i s) + 1]"
proof -
  have i: "unat (chan_i s) < length cfg" using ok cfg by (simp add: session_ok_def)
  have ne: "rs \<noteq> []" using len by auto
  let ?bl = "butlast rs" and ?r = "last rs"
  let ?a = "accumulating s c ?bl"
  have rs: "rs = ?bl @ [?r]" using ne by simp
  have p: "(2::nat) ^ k \<le> 32768" using k two_power_log2 by simp
  have lb: "Suc (length ?bl) = 2 ^ unat (sample_count_log2 c)" using len ne k by simp
  then have lt: "length ?bl < 2 ^ unat (sample_count_log2 c)" by linarith
  have pre: "conversions s (r0 # r1 # ?bl) = Inr (?a, [])"
    using st cfg i c lt by (rule window_prefix)
  have fin: "finalizes ?a" using lb by (rule accumulating_finalizes)
  have oka: "session_ok ?a" using ok by (simp add: session_ok_accumulating)
  have cfga: "config ?a = Some cfg" using cfg by (simp add: accumulating_simps)
  have ci: "cfg ! unat (chan_i ?a) = c" using c by (simp add: accumulating_simps)
  define v :: u16 where "v = ucast (final_accumulator c (sample_cnt_target ?a)
               (sample_accumulator ?a + ucast (adc_reading (fst ?r) (snd ?r))))"
  then have v': "v = ucast (final_accumulator (cfg ! unat (chan_i ?a)) (sample_cnt_target ?a)
               (sample_accumulator ?a + ucast (adc_reading (fst ?r) (snd ?r))))"
    using ci by simp
  let ?s' = "?a\<lparr>sample_cnt := sample_cnt ?a + 1,
            sample := (sample ?a)[unat (chan_i ?a) := v],
            sn := (sn ?a)[unat (chan_i ?a) := sn ?a ! unat (chan_i ?a) + 1],
            chan_i := next_chan ?a,
            state := ISR_STATE_INIT\<rparr>"
  have step: "ADC_vect (fst ?r) (snd ?r) ?a = Inr (?s', final_events ?a v)"
    using oka cfga fin v' by (rule ADC_vect_final)
  have fe: "final_events ?a v = final_events s v"
    by (simp add: final_events_def accumulating_simps cong: option.case_cong)
  have nc: "next_chan ?a = next_chan s" by (simp add: next_chan_def accumulating_simps)
  have "length ?bl < 32768" using lb p k by simp
  then have "unat (sample_accumulator ?a + ucast (adc_reading (fst ?r) (snd ?r)))
               = readings_sum (?bl @ [?r])" by (rule accumulating_next)
  then have acc: "unat (sample_accumulator ?a + ucast (adc_reading (fst ?r) (snd ?r)))
               = readings_sum rs" using rs by simp
  have bound: "readings_sum rs \<le> 2 ^ k * 65535" using readings_sum_u16[of rs] len by simp
  have tgt: "unat (sample_cnt_target ?a) = 2 ^ k" using k by (simp only: accumulating_target)
  have val: "unat v = rounded_average k (readings_sum rs)"
    unfolding v_def using k tgt acc bound by (rule final_value_unat)
  have "conversions s ((r0 # r1 # ?bl) @ [?r]) = Inr (?s', final_events s v)"
    unfolding conversions_append using pre step fe by simp
  then have run: "conversions s (r0 # r1 # rs) = Inr (?s', final_events s v)"
    using rs by (metis append_Cons)
  have "unat (chan_i s) < unat (chan_count s)" using ok by (rule session_ok_index)
  then have "unat (next_chan s) < unat (chan_count s)" by (simp add: unat_next_chan)
  then have oks: "session_ok ?s'"
    using ok cfg nc by (simp add: session_ok_def accumulating_simps)
  show ?thesis
    using run pre val step fe oks cfg nc v_def
    by (intro exI[of _ ?s'] exI[of _ v]) (simp add: accumulating_simps)
qed

subsection \<open>Starting a session\<close>

lemma begin_depth2: "ScanADC_begin [\<lparr>mux = 7, sample_count_log2 = 2\<rparr>] 1 getInstance = Inr depth2_session"
  by code_simp

lemma get_sn_past_sequence_numbers:
  "get_sn 0 (depth2_session\<lparr>sn := [9], sample := [0x1234]\<rparr>) = Inr 9 \<and>
   get_sn 1 (depth2_session\<lparr>sn := [9], sample := [0x1234]\<rparr>) = Inr 0x34 \<and>
   get_sn 2 (depth2_session\<lparr>sn := [9], sample := [0x1234]\<rparr>) = Inr 0x12 \<and>
   get_sn 3 (depth2_session\<lparr>sn := [9], sample := [0x1234]\<rparr>) = Inl (OutOfBounds 3 3)"
  by (simp add: get_sn_def sample_byte_def depth2_session_def)

lemma ScanADC_begin_ok:
  assumes "0 < unat n" and "unat n \<le> length channel_config"
  shows "\<exists>s'. ScanADC_begin channel_config n s = Inr s' \<and> session_ok s' \<and>
           state s' = ISR_STATE_INIT \<and> chan_i s' = 0 \<and> chan_count s' = n \<and>
           config s' = Some (take (unat n) channel_config) \<and>
           sn s' = replicate (unat n) 0 \<and> sample s' = replicate (unat n) 0 \<and>
           channel_cb s' = channel_cb s \<and> channel_scan_cb s' = channel_scan_cb s"
  using assms
  by (simp add: ScanADC_begin_def ScanADC_end_def config_at_def Let_def session_ok_def)

subsection \<open>Traces\<close>

lemma finalized_append: "finalized (xs @ ys) = finalized xs @ finalized ys"
  by (induction xs rule: finalized.induct) simp_all

lemma scan_calls_append: "scan_calls (xs @ ys) = scan_calls xs @ scan_calls ys"
  by (induction xs rule: scan_calls.induct) simp_all

lemma finalized_final_events: "finalized (final_events s v) = [unat (chan_i s)]"
  by (simp add: final_events_def finalized_append split: option.split)

lemma scan_calls_final_events:
  "scan_calls (final_events s v) =
     (if chan_i s + 1 = chan_count s
      then (case channel_scan_cb s of
              None \<Rightarrow> []
            | Some g \<Rightarrow> [(g, (sample s)[unat (chan_i s) := v])])
      else [])"
  by (simp add: final_events_def scan_calls_append split: option.split)

lemma cyclic_shift:
  assumes "i < n"
  shows "i # map (\<lambda>m. ((i + 1) mod n + m) mod n) [0..<l] = map (\<lambda>m. (i + m) mod n) [0..<Suc l]"
proof -
  have "[0..<Suc l] = 0 # map Suc [0..<l]"
    by (simp only: map_Suc_upt upt_conv_Cons[of 0 "Suc l"])
  moreover have "((i + 1) mod n + m) mod n = (i + Suc m) mod n" for m
    by (simp add: mod_add_left_eq)
  ultimately show ?thesis using assms by (simp add: comp_def)
qed

text \<open>Any number of conversions in a session in progress: the handler never faults, and the
  samples are published at the channels that follow the current one cyclically.\<close>

lemma conversions_round_robin:
  assumes "session_ok s"
  shows "\<exists>s' tr. conversions s rs = Inr (s', tr) \<and> session_ok s' \<and>
           chan_count s' = chan_count s \<and>
           finalized tr = map (\<lambda>m. (unat (chan_i s) + m) mod unat (chan_count s))
                            [0..<length (finalized tr)]"
  using assms
proof (induction rs arbitrary: s)
  case Nil
  then show ?case by simp
next
  case (Cons r rs)
  show ?case
  proof (cases "finalizes s")
    case False
    obtain s1 where s1: "ADC_vect (fst r) (snd r) s = Inr (s1, [])" "session_ok s1"
      "chan_count s1 = chan_count s" "chan_i s1 = chan_i s"
      using ADC_vect_quiet[OF Cons.prems False, of "fst r" "snd r"] by blast
    obtain s' tr where t: "conversions s1 rs = Inr (s', tr)" "session_ok s'"
      "chan_count s' = chan_count s1"
      "finalized tr = map (\<lambda>m. (unat (chan_i s1) + m) mod unat (chan_count s1))
                            [0..<length (finalized tr)]"
      using Cons.IH[OF s1(2)] by blast
    show ?thesis using s1 t by simp
  next
    case True
    obtain s1 v where s1: "ADC_vect (fst r) (snd r) s = Inr (s1, final_events s v)"
      "session_ok s1" "chan_count s1 = chan_count s" "chan_i s1 = next_chan s"
      using ADC_vect_loud[OF Cons.prems True, of "fst r" "snd r"] by blast
    obtain s' tr where t: "conversions s1 rs = Inr (s', tr)" "session_ok s'"
      "chan_count s' = chan_count s1"
      "finalized tr = map (\<lambda>m. (unat (chan_i s1) + m) mod unat (chan_count s1))
                            [0..<length (finalized tr)]"
      using Cons.IH[OF s1(2)] by blast
    let ?i = "unat (chan_i s)" and ?n = "unat (chan_count s)"
    have i: "?i < ?n" using Cons.prems by (rule session_ok_index)
    have "finalized tr = map (\<lambda>m. ((?i + 1) mod ?n + m) mod ?n) [0..<length (finalized tr)]"
      using t(4) s1(3,4) unat_next_chan[OF i] by simp
    then have "?i # finalized tr = map (\<lambda>m. (?i + m) mod ?n) [0..<Suc (length (finalized tr))]"
      using cyclic_shift[OF i, of "length (finalized tr)"] by simp
    then have "finalized (final_events s v @ tr)
                 = map (\<lambda>m. (?i + m) mod ?n) [0..<length (finalized (final_events s v @ tr))]"
      by (simp add: finalized_append finalized_final_events)
    then show ?thesis using s1 t by simp
  qed
qed

lemma last_reading_session_reached:
  "session two_channels 2 with_callbacks [(0, 0), (0, 0), (5, 0), (0, 0), (0, 0), (5, 0)]
     = Inr (last_reading_session,
            [WriteSample 0 5, WriteSn 0 1, CallChannelCb 41 0 5, WriteChanI 1])"
  by code_simp

text \<open>With a scan callback installed, the calls of it in any run number the completed passes
  over the table, and each call is to the installed function.\<close>

lemma conversions_scan_calls:
  assumes "session_ok s" and "channel_scan_cb s = Some g"
  shows "\<exists>s' tr. conversions s rs = Inr (s', tr) \<and>
           length (scan_calls tr)
             = (unat (chan_i s) + length (finalized tr)) div unat (chan_count s) \<and>
           (\<forall>c\<in>set (scan_calls tr). fst c = g)"
  using assms
proof (induction rs arbitrary: s)
  case Nil
  then show ?case using session_ok_index[of s] by simp
next
  case (Cons r rs)
  show ?case
  proof (cases "finalizes s")
    case False
    obtain s1 where s1: "ADC_vect (fst r) (snd r) s = Inr (s1, [])" "session_ok s1"
      "chan_count s1 = chan_count s" "chan_i s1 = chan_i s"
      "channel_scan_cb s1 = channel_scan_cb s"
      using ADC_vect_quiet[OF Cons.prems(1) False, of "fst r" "snd r"] by blast
    have g: "channel_scan_cb s1 = Some g" using s1(5) Cons.prems(2) by simp
    obtain s' tr where t: "conversions s1 rs = Inr (s', tr)"
      "length (scan_calls tr)
         = (unat (chan_i s1) + length (finalized tr)) div unat (chan_count s1)"
      "\<forall>c\<in>set (scan_calls tr). fst c = g"
      using Cons.IH[OF s1(2) g] by blast
    show ?thesis using s1 t by simp
  next
    case True
    obtain s1 v where s1: "ADC_vect (fst r) (snd r) s = Inr (s1, final_events s v)"
      "session_ok s1" "chan_count s1 = chan_count s" "chan_i s1 = next_chan s"
      "channel_scan_cb s1 = channel_scan_cb s"
      using ADC_vect_loud[OF Cons.prems(1) True, of "fst r" "snd r"] by blast
    have g: "channel_scan_cb s1 = Some g" using s1(5) Cons.prems(2) by simp
    obtain s' tr where t: "conversions s1 rs = Inr (s', tr)"
      "length (scan_calls tr)
         = (unat (chan_i s1) + length (finalized tr)) div unat (chan_count s1)"
      "\<forall>c\<in>set (scan_calls tr). fst c = g"
      using Cons.IH[OF s1(2) g] by blast
    let ?i = "unat (chan_i s)" and ?n = "unat (chan_count s)"
    have i: "?i < ?n" using Cons.prems(1) by (rule session_ok_index)
    have run: "conversions s (r # rs) = Inr (s', final_events s v @ tr)"
      using s1(1) t(1) by simp
    have fin: "length (finalized (final_events s v @ tr)) = Suc (length (finalized tr))"
      by (simp add: finalized_append finalized_final_events)
    show ?thesis
    proof (cases "?i + 1 = ?n")
      case True
      then have w: "chan_i s + 1 = chan_count s" using next_is_count[OF i] by simp
      then have "unat (chan_i s1) = 0" using s1(4) by (simp add: next_chan_def)
      then have "length (scan_calls tr) = length (finalized tr) div ?n"
        using t(2) s1(3) by simp
      moreover have "(?i + Suc (length (finalized tr))) div ?n
                       = Suc (length (finalized tr) div ?n)"
        using True i by (metis Suc_eq_plus1 add_Suc_right add_Suc div_add_self1 not_less0
                           not_gr_zero)
      moreover have "scan_calls (final_events s v) = [(g, (sample s)[?i := v])]"
        using w Cons.prems(2) by (simp add: scan_calls_final_events)
      ultimately show ?thesis
        using run fin t(3) by (simp add: scan_calls_append)
    next
      case False
      then have w: "chan_i s + 1 \<noteq> chan_count s" using next_is_count[OF i] by simp
      then have "unat (chan_i s1) = ?i + 1"
        using s1(4) unat_suc_cnt[OF i] by (simp add: next_chan_def)
      then have "length (scan_calls tr) = (?i + Suc (length (finalized tr))) div ?n"
        using t(2) s1(3) by simp
      moreover have "scan_calls (final_events s v) = []"
        using w by (simp add: scan_calls_final_events)
      ultimately show ?thesis
        using run fin t(3) by (simp add: scan_calls_append)
    qed
  qed
qed

subsection \<open>The order of the stores\<close>

lemma replay_no_store: "\<forall>e\<in>set es. \<not> is_store e \<Longrightarrow> replay m es = m"
proof (induction es arbitrary: m)
  case Nil
  then show ?case by simp
next
  case (Cons e es)
  then show ?case by (cases e; cases m) simp_all
qed

lemma final_events_shape:
  "\<exists>rest. final_events s v
            = WriteSample (unat (chan_i s)) v
              # WriteSn (unat (chan_i s)) (sn s ! unat (chan_i s) + 1) # rest \<and>
          (\<forall>e\<in>set rest. \<not> is_store e)"
  by (cases "channel_cb s"; cases "channel_scan_cb s") (auto simp: final_events_def)

lemma replay_take_final:
  assumes "tr = WriteSample i v # WriteSn i n # rest" and "\<forall>e\<in>set rest. \<not> is_store e"
  shows "replay (q, x) (take k tr) =
           (if k = 0 then (q, x) else if k = 1 then (q, x[i := v]) else (q[i := n], x[i := v]))"
proof (cases k)
  case 0
  then show ?thesis by simp
next
  case (Suc k1)
  show ?thesis
  proof (cases k1)
    case 0
    then show ?thesis using Suc assms(1) by simp
  next
    case (Suc k2)
    have "\<forall>e\<in>set (take k2 rest). \<not> is_store e"
      using assms(2) by (meson in_set_takeD)
    then have "replay (q[i := n], x[i := v]) (take k2 rest) = (q[i := n], x[i := v])"
      by (rule replay_no_store)
    then show ?thesis using Suc \<open>k = Suc k1\<close> assms(1) by simp
  qed
qed

subsection \<open>One pass over the table\<close>

lemma conversions_take:
  assumes "conversions s rs = Inr (s', tr)"
  shows "\<exists>s1 tr1 tr2. conversions s (take m rs) = Inr (s1, tr1) \<and> tr = tr1 @ tr2"
proof -
  have "conversions s (take m rs @ drop m rs) = Inr (s', tr)" using assms by simp
  then show ?thesis
    unfolding conversions_append by (auto split: sum.splits prod.splits)
qed

lemma conversions_append_Inr:
  "conversions s xs = Inr (s1, t1) \<Longrightarrow> conversions s1 ys = Inr (s2, t2) \<Longrightarrow>
   conversions s (xs @ ys) = Inr (s2, t1 @ t2)"
  by (simp add: conversions_append)

lemma window_split:
  assumes "length rs = window_events c + l"
  shows "\<exists>r0 r1 ws rs2. rs = (r0 # r1 # ws) @ rs2 \<and>
           length ws = 2 ^ unat (sample_count_log2 c) \<and> length rs2 = l"
proof -
  let ?w = "take (window_events c) rs"
  have lw: "length ?w = 2 + 2 ^ unat (sample_count_log2 c)"
    using assms by (simp add: window_events_def)
  then obtain r0 w1 where w0: "?w = r0 # w1" by (cases ?w) simp_all
  then obtain r1 ws where w1: "w1 = r1 # ws" using lw by (cases w1) simp_all
  have "length ws = 2 ^ unat (sample_count_log2 c)" using lw w0 w1 by simp
  moreover have "rs = (r0 # r1 # ws) @ drop (window_events c) rs"
    using w0 w1 append_take_drop_id[of "window_events c" rs] by simp
  moreover have "length (drop (window_events c) rs) = l" using assms by simp
  ultimately show ?thesis by blast
qed

text \<open>From the selecting state of channel \<open>i\<close>, the conversions of the windows of the
  channels \<open>i, ..., N - 1\<close>: the channels are published in order, the last publication is in
  the run of the handler on the last conversion, and the handler is back at channel 0.\<close>

lemma scan_run:
  assumes "session_ok s" and "state s = ISR_STATE_INIT" and "config s = Some cfg"
    and "length rs = sum_list (map window_events (drop (unat (chan_i s)) cfg))"
  shows "\<exists>s' tr s1 tr1.
           conversions s rs = Inr (s', tr) \<and> finalized tr = [unat (chan_i s)..<length cfg] \<and>
           session_ok s' \<and> state s' = ISR_STATE_INIT \<and> chan_i s' = 0 \<and>
           conversions s (butlast rs) = Inr (s1, tr1) \<and>
           finalized tr1 = [unat (chan_i s)..<length cfg - 1]"
  using assms
proof (induction "length cfg - unat (chan_i s)" arbitrary: s rs)
  case 0
  then show ?case by (simp add: session_ok_def)
next
  case (Suc d)
  let ?i = "unat (chan_i s)" and ?c = "cfg ! unat (chan_i s)"
  have n: "length cfg = unat (chan_count s)"
    using Suc.prems(1,3) by (simp add: session_ok_def)
  have i: "?i < unat (chan_count s)" using Suc.prems(1) by (rule session_ok_index)
  have dr: "drop ?i cfg = ?c # drop (Suc ?i) cfg"
    using i n by (simp add: Cons_nth_drop_Suc)
  let ?l = "sum_list (map window_events (drop (Suc ?i) cfg))"
  have "length rs = window_events ?c + ?l" using Suc.prems(4) dr by simp
  then obtain r0 r1 ws rs2 where sp: "rs = (r0 # r1 # ws) @ rs2"
    "length ws = 2 ^ unat (sample_count_log2 ?c)" "length rs2 = ?l"
    using window_split by blast
  obtain s1 v where w:
    "conversions s (r0 # r1 # ws) = Inr (s1, final_events s v)"
    "conversions s (r0 # r1 # butlast ws) = Inr (accumulating s ?c (butlast ws), [])"
    "session_ok s1" "state s1 = ISR_STATE_INIT" "config s1 = Some cfg"
    "chan_i s1 = next_chan s"
    using window_full[OF Suc.prems(1,2,3) refl refl sp(2), of r0 r1] by blast
  have ne: "ws \<noteq> []" using sp(2) by auto
  show ?case
  proof (cases "?i + 1 = unat (chan_count s)")
    case True
    then have "drop (Suc ?i) cfg = []" using n by simp
    then have e: "rs2 = []" using sp(3) by simp
    have "chan_i s + 1 = chan_count s" using True next_is_count[OF i] by simp
    then have z: "chan_i s1 = 0" using w(6) by (simp add: next_chan_def)
    have f: "finalized (final_events s v) = [?i..<length cfg]"
      using True n by (simp add: finalized_final_events upt_rec)
    have b: "butlast rs = r0 # r1 # butlast ws" using sp(1) e ne by simp
    have "finalized [] = [?i..<length cfg - 1]" using True n by simp
    then show ?thesis using w z f b sp(1) e by auto
  next
    case False
    then have lt: "?i + 1 < unat (chan_count s)" using i by simp
    have "chan_i s + 1 \<noteq> chan_count s" using False next_is_count[OF i] by simp
    then have ci: "unat (chan_i s1) = Suc ?i"
      using w(6) unat_suc_cnt[OF i] by (simp add: next_chan_def)
    have d: "d = length cfg - unat (chan_i s1)" using Suc.hyps(2) ci by simp
    have l2: "length rs2 = sum_list (map window_events (drop (unat (chan_i s1)) cfg))"
      using sp(3) ci by simp
    obtain s' tr s2 tr2 where ih:
      "conversions s1 rs2 = Inr (s', tr)" "finalized tr = [unat (chan_i s1)..<length cfg]"
      "session_ok s'" "state s' = ISR_STATE_INIT" "chan_i s' = 0"
      "conversions s1 (butlast rs2) = Inr (s2, tr2)"
      "finalized tr2 = [unat (chan_i s1)..<length cfg - 1]"
      using Suc.hyps(1)[OF d w(3,4,5) l2] by blast
    have "drop (Suc ?i) cfg \<noteq> []" using lt n by simp
    then obtain c2 cs where "drop (Suc ?i) cfg = c2 # cs" by (cases "drop (Suc ?i) cfg") simp_all
    then have "0 < length rs2" using sp(3) by (simp add: window_events_def)
    then have ne2: "rs2 \<noteq> []" by auto
    have run: "conversions s rs = Inr (s', final_events s v @ tr)"
      unfolding sp(1) using w(1) ih(1) by (rule conversions_append_Inr)
    have b: "butlast rs = (r0 # r1 # ws) @ butlast rs2"
      unfolding sp(1) using ne2 by (simp add: butlast_append)
    have run1: "conversions s (butlast rs) = Inr (s2, final_events s v @ tr2)"
      unfolding b using w(1) ih(6) by (rule conversions_append_Inr)
    have f: "finalized (final_events s v @ tr) = [?i..<length cfg]"
      using ih(2) ci lt n by (simp add: finalized_append finalized_final_events upt_rec[of ?i])
    have f1: "finalized (final_events s v @ tr2) = [?i..<length cfg - 1]"
      using ih(7) ci lt n
      by (simp add: finalized_append finalized_final_events upt_rec[of ?i])
    show ?thesis using run run1 f f1 ih(3,4,5) by blast
  qed
qed

lemma conversions_config:
  assumes "session_ok s"
  shows "\<exists>s' tr. conversions s rs = Inr (s', tr) \<and> config s' = config s"
  using assms
proof (induction rs arbitrary: s)
  case Nil
  then show ?case by simp
next
  case (Cons r rs)
  obtain s1 t1 where s1: "ADC_vect (fst r) (snd r) s = Inr (s1, t1)" "session_ok s1"
    "config s1 = config s"
    using ADC_vect_quiet[OF Cons.prems, of "fst r" "snd r"]
      ADC_vect_loud[OF Cons.prems, of "fst r" "snd r"]
    by (cases "finalizes s") blast+
  obtain s' tr where "conversions s1 rs = Inr (s', tr)" "config s' = config s1"
    using Cons.IH[OF s1(2)] by blast
  then show ?case using s1 by simp
qed

lemma length_concat_replicate: "length (concat (replicate k xs)) = k * length xs"
  by (induction k) simp_all

text \<open>From the selecting state of channel 0, the conversions of \<open>k\<close> passes over the table
  publish the channels \<open>0, ..., N - 1\<close> \<open>k\<close> times over.\<close>

lemma scans_run:
  assumes "session_ok s" and "state s = ISR_STATE_INIT" and "config s = Some cfg"
    and "chan_i s = 0" and "length rs = k * scan_events cfg"
  shows "\<exists>s' tr. conversions s rs = Inr (s', tr) \<and>
           finalized tr = concat (replicate k [0..<length cfg])"
  using assms
proof (induction k arbitrary: s rs)
  case 0
  then show ?case by simp
next
  case (Suc k)
  let ?l = "scan_events cfg"
  let ?a = "take ?l rs" and ?b = "drop ?l rs"
  have la: "length ?a = sum_list (map window_events (drop (unat (chan_i s)) cfg))"
    using Suc.prems(4,5) by (simp add: scan_events_def)
  have lb: "length ?b = k * scan_events cfg" using Suc.prems(5) by simp
  obtain s1 t1 where a: "conversions s ?a = Inr (s1, t1)" "finalized t1 = [0..<length cfg]"
    "session_ok s1" "state s1 = ISR_STATE_INIT" "chan_i s1 = 0"
    using scan_run[OF Suc.prems(1,2,3) la] Suc.prems(4) by auto
  have "config s1 = config s"
    using conversions_config[OF Suc.prems(1), of ?a] a(1) by simp
  then have c1: "config s1 = Some cfg" using Suc.prems(3) by simp
  obtain s' t2 where b: "conversions s1 ?b = Inr (s', t2)"
    "finalized t2 = concat (replicate k [0..<length cfg])"
    using Suc.IH[OF a(3,4) c1 a(5) lb] by blast
  have "conversions s (?a @ ?b) = Inr (s', t1 @ t2)"
    using a(1) b(1) by (rule conversions_append_Inr)
  then show ?case using a(2) b(2) by (simp add: finalized_append)
qed

subsection \<open>The callbacks\<close>







section \<open>The properties of the specification\<close>

text \<open>
  C1. For every configured channel, when the handler accumulates the raw reading that makes
  the count reach the target \<open>2 ^ k\<close> (\<open>k\<close> the channel's \<^verbatim>\<open>sample_count_log2\<close>), the
  value it publishes is the accumulated sum itself if \<open>k = 0\<close>, and otherwise the sum plus
  half the target, shifted right by \<open>k\<close> bits. Here the channel's window starts in the
  selecting state of a session in progress; \<open>r0\<close> and \<open>r1\<close> are the two conversions spent
  before accumulation, \<open>rs\<close> the \<open>2 ^ k\<close> readings. Nothing is published before the last
  reading, the run of the handler on the last reading finalizes, the accumulator it forms is
  the exact sum, and the value it stores first and leaves in the channel's slot is the
  rounded average.
\<close>

theorem published_value_is_rounded_average:
  assumes "session_ok s" and "state s = ISR_STATE_INIT" and "config s = Some cfg"
    and "c = cfg ! unat (chan_i s)" and "k = unat (sample_count_log2 c)"
    and "length rs = 2 ^ k"
  shows "\<exists>s1 s' v tr.
           conversions s (r0 # r1 # butlast rs) = Inr (s1, []) \<and>
           finalizes s1 \<and> unat (sample_cnt_target s1) = 2 ^ k \<and>
           unat (sample_accumulator s1 + ucast (adc_reading (fst (last rs)) (snd (last rs))))
             = readings_sum rs \<and>
           ADC_vect (fst (last rs)) (snd (last rs)) s1
             = Inr (s', WriteSample (unat (chan_i s)) v # tr) \<and>
           sample s' ! unat (chan_i s) = v \<and>
           unat v = (if k = 0 then readings_sum rs
                     else (readings_sum rs + 2 ^ k div 2) div 2 ^ k)"
proof -
  let ?bl = "butlast rs" and ?r = "last rs"
  let ?a = "accumulating s c ?bl"
  obtain s' v where w:
    "conversions s (r0 # r1 # ?bl) = Inr (?a, [])"
    "ADC_vect (fst ?r) (snd ?r) ?a = Inr (s', final_events s v)"
    "unat v = rounded_average k (readings_sum rs)"
    "sample s' = (sample s)[unat (chan_i s) := v]"
    using window_full[OF assms, of r0 r1] by blast
  have ne: "rs \<noteq> []" using assms(6) by auto
  have p: "(2::nat) ^ k \<le> 32768" using assms(5) two_power_log2 by simp
  have lb: "Suc (length ?bl) = 2 ^ unat (sample_count_log2 c)" using assms(5,6) ne by simp
  have fin: "finalizes ?a" using lb by (rule accumulating_finalizes)
  have tgt: "unat (sample_cnt_target ?a) = 2 ^ k" using assms(5) by (simp only: accumulating_target)
  have "length ?bl < 32768" using lb p assms(5) by simp
  then have "unat (sample_accumulator ?a + ucast (adc_reading (fst ?r) (snd ?r)))
               = readings_sum (?bl @ [?r])" by (rule accumulating_next)
  then have acc: "unat (sample_accumulator ?a + ucast (adc_reading (fst ?r) (snd ?r)))
               = readings_sum rs" using ne by simp
  have i: "unat (chan_i s) < length (sample s)"
    using assms(1,3) by (simp add: session_ok_def)
  have slot: "sample s' ! unat (chan_i s) = v" using w(4) i by simp
  have ev: "final_events s v = WriteSample (unat (chan_i s)) v # tl (final_events s v)"
    by (simp add: final_events_def)
  have step: "ADC_vect (fst ?r) (snd ?r) ?a
                = Inr (s', WriteSample (unat (chan_i s)) v # tl (final_events s v))"
    using w(2) ev by simp
  show ?thesis
    using w(1) fin tgt acc step slot w(3)
    by (intro exI[of _ ?a] exI[of _ s'] exI[of _ v] exI[of _ "tl (final_events s v)"])
       (simp add: rounded_average_def)
qed

theorem published_value_is_rounded_average_witness:
  "session_ok depth2_session \<and> state depth2_session = ISR_STATE_INIT \<and>
   (\<exists>s1 s' v tr.
      conversions depth2_session [(0, 0), (0, 0), (1, 0), (1, 0), (1, 0)] = Inr (s1, []) \<and>
      finalizes s1 \<and> unat (sample_cnt_target s1) = 4 \<and>
      unat (sample_accumulator s1 + ucast (adc_reading 2 0)) = 5 \<and>
      ADC_vect 2 0 s1 = Inr (s', WriteSample 0 v # tr) \<and> sample s' ! 0 = v \<and> unat v = 1) \<and>
   (\<exists>s1 s' v tr.
      conversions depth2_session [(0, 0), (0, 0), (1, 0), (2, 0), (2, 0)] = Inr (s1, []) \<and>
      finalizes s1 \<and> unat (sample_cnt_target s1) = 4 \<and>
      unat (sample_accumulator s1 + ucast (adc_reading 2 0)) = 7 \<and>
      ADC_vect 2 0 s1 = Inr (s', WriteSample 0 v # tr) \<and> sample s' ! 0 = v \<and> unat v = 2)"
proof -
  let ?c = "\<lparr>mux = 7, sample_count_log2 = 2\<rparr>"
  have h1: "session_ok depth2_session" by (simp add: depth2_session_def session_ok_def)
  have h2: "state depth2_session = ISR_STATE_INIT" by (simp add: depth2_session_def)
  have h3: "config depth2_session = Some [?c]" by (simp add: depth2_session_def)
  have h4: "?c = [?c] ! unat (chan_i depth2_session)" by (simp add: depth2_session_def)
  have h5: "(2::nat) = unat (sample_count_log2 ?c)" by simp
  have a: "length [(1, 0), (1, 0), (1, 0), (2 :: u8, 0 :: u8)] = 2 ^ 2" by simp
  have b: "length [(1, 0), (2, 0), (2, 0), (2 :: u8, 0 :: u8)] = 2 ^ 2" by simp
  have r: "unat (chan_i depth2_session) = 0" by (simp add: depth2_session_def)
  have p: "(2::nat) ^ 2 = 4" by simp
  have ea: "butlast [(1, 0), (1, 0), (1, 0), (2 :: u8, 0 :: u8)] = [(1, 0), (1, 0), (1, 0)]"
    and eb: "butlast [(1, 0), (2, 0), (2, 0), (2 :: u8, 0 :: u8)] = [(1, 0), (2, 0), (2, 0)]"
    and la: "last [(1, 0), (1, 0), (1, 0), (2 :: u8, 0 :: u8)] = (2, 0)"
    and lb: "last [(1, 0), (2, 0), (2, 0), (2 :: u8, 0 :: u8)] = (2, 0)"
    by simp_all
  have ra: "readings_sum [(1, 0), (1, 0), (1, 0), (2, 0)] = 5"
    and rb: "readings_sum [(1, 0), (2, 0), (2, 0), (2, 0)] = 7"
    by (simp_all add: readings_sum_def adc_reading_def)
  have va: "(if (2::nat) = 0 then 5 else (5 + 4 div 2) div 4) = (1::nat)"
    and vb: "(if (2::nat) = 0 then 7 else (7 + 4 div 2) div 4) = (2::nat)"
    by simp_all
  note A = published_value_is_rounded_average[OF h1 h2 h3 h4 h5 a, of "(0, 0)" "(0, 0)",
             unfolded ea la ra p va r fst_conv snd_conv]
  note B = published_value_is_rounded_average[OF h1 h2 h3 h4 h5 b, of "(0, 0)" "(0, 0)",
             unfolded eb lb rb p vb r fst_conv snd_conv]
  show ?thesis using h1 h2 A B by (intro conjI)
qed

text \<open>
  C2. A channel's 8-bit sequence number is 0 when a session begins, and a run of the handler
  increments it by exactly 1 modulo 256 if and only if that run completes the channel's
  averaging cycle; runs in the selecting and settling states and runs that accumulate
  without completing the count leave every sequence number unchanged. The first conjunct is
  \<^verbatim>\<open>begin\<close> for a table of at least one channel; the second is one run of the handler in
  any session in progress.
\<close>

theorem sequence_number_counts_cycles:
  "(0 < unat n \<and> unat n \<le> length channel_config \<longrightarrow>
      (\<exists>s'. ScanADC_begin channel_config n s0 = Inr s' \<and> session_ok s' \<and>
            sn s' = replicate (unat n) 0))
   \<and> (session_ok s \<longrightarrow>
      (\<exists>s' tr. ADC_vect lo hi s = Inr (s', tr) \<and> session_ok s' \<and>
         length (sn s') = length (sn s) \<and>
         (\<forall>j < length (sn s).
            unat (sn s' ! j) =
              (if finalizes s \<and> j = unat (chan_i s) then (unat (sn s ! j) + 1) mod 256
               else unat (sn s ! j)))))"
proof (intro conjI impI)
  assume "0 < unat n \<and> unat n \<le> length channel_config"
  then show "\<exists>s'. ScanADC_begin channel_config n s0 = Inr s' \<and> session_ok s' \<and>
            sn s' = replicate (unat n) 0"
    using ScanADC_begin_ok[of n channel_config s0] by blast
next
  assume ok: "session_ok s"
  show "\<exists>s' tr. ADC_vect lo hi s = Inr (s', tr) \<and> session_ok s' \<and>
         length (sn s') = length (sn s) \<and>
         (\<forall>j < length (sn s).
            unat (sn s' ! j) =
              (if finalizes s \<and> j = unat (chan_i s) then (unat (sn s ! j) + 1) mod 256
               else unat (sn s ! j)))"
  proof (cases "finalizes s")
    case False
    then show ?thesis using ADC_vect_quiet[OF ok False, of lo hi] by auto
  next
    case True
    obtain s' v where s': "ADC_vect lo hi s = Inr (s', final_events s v)" "session_ok s'"
      "sn s' = (sn s)[unat (chan_i s) := sn s ! unat (chan_i s) + 1]"
      using ADC_vect_loud[OF ok True, of lo hi] by blast
    have "unat (x + 1) = (unat x + 1) mod 256" for x :: u8
      by (simp add: unat_word_ariths)
    then have "\<forall>j < length (sn s).
            unat (sn s' ! j) =
              (if finalizes s \<and> j = unat (chan_i s) then (unat (sn s ! j) + 1) mod 256
               else unat (sn s ! j))"
      using True s'(3) by (simp add: nth_list_update)
    then show ?thesis using s' by auto
  qed
qed

theorem sequence_number_counts_cycles_witness:
  "0 < unat (1 :: u8) \<and> unat (1 :: u8) \<le> length [\<lparr>mux = 7, sample_count_log2 = 2\<rparr>] \<and>
   session_ok (depth2_session\<lparr>state := ISR_STATE_ACCUMULATE, sample_cnt := 3,
                 sample_cnt_target := 4, sn := [255]\<rparr>) \<and>
   finalizes (depth2_session\<lparr>state := ISR_STATE_ACCUMULATE, sample_cnt := 3,
                 sample_cnt_target := 4, sn := [255]\<rparr>) \<and>
   (\<exists>s'. ScanADC_begin [\<lparr>mux = 7, sample_count_log2 = 2\<rparr>] 1 getInstance = Inr s' \<and>
         sn s' = [0]) \<and>
   (\<exists>s' tr. ADC_vect 2 0 (depth2_session\<lparr>state := ISR_STATE_ACCUMULATE, sample_cnt := 3,
                 sample_cnt_target := 4, sn := [255]\<rparr>) = Inr (s', tr) \<and>
         unat (sn s' ! 0) = 0)"
proof -
  let ?s = "depth2_session\<lparr>state := ISR_STATE_ACCUMULATE, sample_cnt := 3,
                 sample_cnt_target := 4, sn := [255]\<rparr>"
  let ?c = "\<lparr>mux = 7, sample_count_log2 = 2\<rparr>"
  have h: "0 < unat (1 :: u8) \<and> unat (1 :: u8) \<le> length [?c]" by simp
  have ok: "session_ok ?s" by (simp add: session_ok_def depth2_session_def)
  have fin: "finalizes ?s" by (simp add: finalizes_def depth2_session_def)
  note T = sequence_number_counts_cycles[of 1 "[?c]" getInstance ?s 2 0]
  from T h have a: "\<exists>s'. ScanADC_begin [?c] 1 getInstance = Inr s' \<and> sn s' = [0]"
    by auto
  from T ok obtain s' tr where s': "ADC_vect 2 0 ?s = Inr (s', tr)"
    "\<forall>j < length (sn ?s). unat (sn s' ! j) =
        (if finalizes ?s \<and> j = unat (chan_i ?s) then (unat (sn ?s ! j) + 1) mod 256
         else unat (sn ?s ! j))"
    by blast
  have "unat (sn s' ! 0) = 0"
    using s'(2)[rule_format, of 0] fin by (simp add: depth2_session_def)
  then show ?thesis using h ok fin a s'(1) by blast
qed

text \<open>
  C3. In every session with \<open>N \<ge> 1\<close> configured channels, the channels at which a sample
  is published are, in order, \<open>0, 1, ..., N - 1, 0, 1, ...\<close>. Whatever the number of
  conversions and whatever the readings, the handler never faults and the \<open>m\<close>-th publication
  (counted from 0) is at channel \<open>m mod N\<close>. The publications do happen: after the
  conversions of \<open>k\<close> passes over the table the published channels are exactly
  \<open>0, ..., N - 1\<close> repeated \<open>k\<close> times, and a session of at least that many conversions
  has published at least \<open>k * N\<close> samples.
\<close>

theorem finalization_is_round_robin:
  assumes "0 < unat n" and "unat n \<le> length channel_config"
  shows "\<exists>s' tr. session channel_config n s0 rs = Inr (s', tr) \<and>
           finalized tr = map (\<lambda>m. m mod unat n) [0..<length (finalized tr)] \<and>
           (\<forall>k. length rs = k * scan_events (take (unat n) channel_config) \<longrightarrow>
                finalized tr = concat (replicate k [0..<unat n])) \<and>
           (\<forall>k. k * scan_events (take (unat n) channel_config) \<le> length rs \<longrightarrow>
                k * unat n \<le> length (finalized tr))"
proof -
  let ?cfg = "take (unat n) channel_config"
  obtain s where s: "ScanADC_begin channel_config n s0 = Inr s" "session_ok s"
    "state s = ISR_STATE_INIT" "chan_i s = 0" "chan_count s = n" "config s = Some ?cfg"
    using ScanADC_begin_ok[OF assms, of s0] by blast
  have n: "length ?cfg = unat n" using assms(2) by simp
  obtain s' tr where r: "conversions s rs = Inr (s', tr)"
    "finalized tr = map (\<lambda>m. (unat (chan_i s) + m) mod unat (chan_count s))
                            [0..<length (finalized tr)]"
    using conversions_round_robin[OF s(2), of rs] by blast
  have rr: "finalized tr = map (\<lambda>m. m mod unat n) [0..<length (finalized tr)]"
    using r(2) s(4,5) by simp
  have exact: "finalized tr = concat (replicate k [0..<unat n])"
    if "length rs = k * scan_events ?cfg" for k
    using scans_run[OF s(2,3,6,4) that] r(1) n by auto
  have lower: "k * unat n \<le> length (finalized tr)"
    if "k * scan_events ?cfg \<le> length rs" for k
  proof -
    obtain s1 t1 t2 where p: "conversions s (take (k * scan_events ?cfg) rs) = Inr (s1, t1)"
      "tr = t1 @ t2"
      using conversions_take[OF r(1), of "k * scan_events ?cfg"] by blast
    have len: "length (take (k * scan_events ?cfg) rs) = k * scan_events ?cfg"
      using that by simp
    have "finalized t1 = concat (replicate k [0..<unat n])"
      using scans_run[OF s(2,3,6,4) len] p(1) n by auto
    then have "length (finalized t1) = k * unat n" by (simp add: length_concat_replicate)
    then show ?thesis using p(2) by (simp add: finalized_append)
  qed
  show ?thesis
    using s(1) r(1) rr exact lower
    by (intro exI[of _ s'] exI[of _ tr]) (simp add: session_def)
qed

theorem finalization_is_round_robin_witness:
  "0 < unat (2 :: u8) \<and>
   unat (2 :: u8) \<le> length [\<lparr>mux = 7, sample_count_log2 = 0\<rparr>, \<lparr>mux = 6, sample_count_log2 = 1\<rparr>] \<and>
   length (replicate 14 (5 :: u8, 0 :: u8))
     = 2 * scan_events (take (unat (2 :: u8))
             [\<lparr>mux = 7, sample_count_log2 = 0\<rparr>, \<lparr>mux = 6, sample_count_log2 = 1\<rparr>]) \<and>
   (\<exists>s' tr. session [\<lparr>mux = 7, sample_count_log2 = 0\<rparr>, \<lparr>mux = 6, sample_count_log2 = 1\<rparr>] 2
              getInstance (replicate 14 (5, 0)) = Inr (s', tr) \<and>
            finalized tr = [0, 1, 0, 1])"
proof -
  let ?cfg = "[\<lparr>mux = 7, sample_count_log2 = 0\<rparr>, \<lparr>mux = 6, sample_count_log2 = 1\<rparr>]"
  have h1: "0 < unat (2 :: u8)" and h2: "unat (2 :: u8) \<le> length ?cfg" by simp_all
  have h3: "length (replicate 14 (5 :: u8, 0 :: u8)) = 2 * scan_events (take (unat (2 :: u8)) ?cfg)"
    by (simp add: scan_events_def window_events_def)
  obtain s' tr where r: "session ?cfg 2 getInstance (replicate 14 (5, 0)) = Inr (s', tr)"
    "\<forall>k. length (replicate 14 (5 :: u8, 0 :: u8)) = k * scan_events (take (unat (2 :: u8)) ?cfg)
         \<longrightarrow> finalized tr = concat (replicate k [0..<unat (2 :: u8)])"
    using finalization_is_round_robin[OF h1 h2, of getInstance "replicate 14 (5, 0)"] by blast
  have "finalized tr = concat (replicate 2 [0..<unat (2 :: u8)])"
    using r(2) h3 by blast
  moreover have "[0..<unat (2 :: u8)] = [0, 1]" by (simp add: upt_rec)
  then have "concat (replicate 2 [0..<unat (2 :: u8)]) = [0, 1, 0, 1]"
    by (simp add: numeral_2_eq_2)
  ultimately have "finalized tr = [0, 1, 0, 1]" by simp
  then show ?thesis using h1 h2 h3 r(1) by blast
qed

text \<open>
  C4. With \<open>N \<ge> 1\<close> channels and a scan callback installed, the scan callback is called
  exactly once per pass over the table: in the run of the handler that finalizes channel
  \<open>N - 1\<close>, after that channel's stores and after its channel callback, before the channel
  index is set back to 0, and with the sample array of all \<open>N\<close> channels as the handler
  leaves it. No other run of the handler calls it. Over a session, the number of calls is
  the number of publications divided by \<open>N\<close>, and every call is to the installed function.
\<close>

theorem scan_callback_once_per_scan:
  "(session_ok s \<and> channel_scan_cb s = Some g \<longrightarrow>
      (\<exists>s' tr. ADC_vect lo hi s = Inr (s', tr) \<and>
         (if finalizes s \<and> unat (chan_i s) + 1 = unat (chan_count s)
          then (\<exists>v. tr = [WriteSample (unat (chan_i s)) v,
                           WriteSn (unat (chan_i s)) (sn s ! unat (chan_i s) + 1)]
                          @ (case channel_cb s of
                               None \<Rightarrow> []
                             | Some f \<Rightarrow> [CallChannelCb f (chan_i s) v])
                          @ [WriteChanI (chan_count s), CallScanCb g (sample s'), WriteChanI 0]
                     \<and> sample s' ! unat (chan_i s) = v)
               \<and> length (sample s') = unat (chan_count s) \<and> chan_i s' = 0
          else scan_calls tr = [])))
   \<and> (0 < unat n \<and> unat n \<le> length channel_config \<and> channel_scan_cb s0 = Some g \<longrightarrow>
      (\<exists>s' tr. session channel_config n s0 rs = Inr (s', tr) \<and>
         length (scan_calls tr) = length (finalized tr) div unat n \<and>
         (\<forall>c\<in>set (scan_calls tr). fst c = g)))"
proof (intro conjI impI)
  assume a: "session_ok s \<and> channel_scan_cb s = Some g"
  then have ok: "session_ok s" and g: "channel_scan_cb s = Some g" by simp_all
  let ?i = "unat (chan_i s)" and ?n = "unat (chan_count s)"
  have i: "?i < ?n" using ok by (rule session_ok_index)
  have len: "length (sample s) = ?n" using ok by (simp add: session_ok_def split: option.splits)
  show "\<exists>s' tr. ADC_vect lo hi s = Inr (s', tr) \<and>
         (if finalizes s \<and> ?i + 1 = ?n
          then (\<exists>v. tr = [WriteSample ?i v, WriteSn ?i (sn s ! ?i + 1)]
                          @ (case channel_cb s of
                               None \<Rightarrow> []
                             | Some f \<Rightarrow> [CallChannelCb f (chan_i s) v])
                          @ [WriteChanI (chan_count s), CallScanCb g (sample s'), WriteChanI 0]
                     \<and> sample s' ! ?i = v)
               \<and> length (sample s') = ?n \<and> chan_i s' = 0
          else scan_calls tr = [])"
  proof (cases "finalizes s")
    case False
    then show ?thesis using ADC_vect_quiet[OF ok False, of lo hi] by auto
  next
    case True
    obtain s' v where s': "ADC_vect lo hi s = Inr (s', final_events s v)"
      "chan_i s' = next_chan s" "sample s' = (sample s)[?i := v]"
      using ADC_vect_loud[OF ok True, of lo hi] by blast
    show ?thesis
    proof (cases "?i + 1 = ?n")
      case False
      then have "chan_i s + 1 \<noteq> chan_count s" using next_is_count[OF i] by simp
      then have "scan_calls (final_events s v) = []" by (simp add: scan_calls_final_events)
      then show ?thesis using s'(1) False by auto
    next
      case last: True
      then have w: "chan_i s + 1 = chan_count s" using next_is_count[OF i] by simp
      have "final_events s v = [WriteSample ?i v, WriteSn ?i (sn s ! ?i + 1)]
                          @ (case channel_cb s of
                               None \<Rightarrow> []
                             | Some f \<Rightarrow> [CallChannelCb f (chan_i s) v])
                          @ [WriteChanI (chan_count s), CallScanCb g (sample s'), WriteChanI 0]"
        using w g s'(3) by (simp add: final_events_def)
      moreover have "sample s' ! ?i = v" using s'(3) i len by simp
      moreover have "length (sample s') = ?n" using s'(3) len by simp
      moreover have "chan_i s' = 0" using s'(2) w by (simp add: next_chan_def)
      ultimately show ?thesis using s'(1) True last by auto
    qed
  qed
next
  assume a: "0 < unat n \<and> unat n \<le> length channel_config \<and> channel_scan_cb s0 = Some g"
  then obtain s where s: "ScanADC_begin channel_config n s0 = Inr s" "session_ok s"
    "chan_i s = 0" "chan_count s = n" "channel_scan_cb s = channel_scan_cb s0"
    using ScanADC_begin_ok[of n channel_config s0] by blast
  have g: "channel_scan_cb s = Some g" using s(5) a by simp
  show "\<exists>s' tr. session channel_config n s0 rs = Inr (s', tr) \<and>
         length (scan_calls tr) = length (finalized tr) div unat n \<and>
         (\<forall>c\<in>set (scan_calls tr). fst c = g)"
    using conversions_scan_calls[OF s(2) g, of rs] s by (auto simp: session_def)
qed

theorem scan_callback_once_per_scan_witness:
  "session_ok last_reading_session \<and> channel_scan_cb last_reading_session = Some 42 \<and>
   finalizes last_reading_session \<and>
   unat (chan_i last_reading_session) + 1 = unat (chan_count last_reading_session) \<and>
   (\<exists>s'. ADC_vect 6 0 last_reading_session
          = Inr (s', [WriteSample 1 6, WriteSn 1 1, CallChannelCb 41 1 6, WriteChanI 2,
                      CallScanCb 42 [5, 6], WriteChanI 0])) \<and>
   0 < unat (2 :: u8) \<and> unat (2 :: u8) \<le> length two_channels \<and>
   channel_scan_cb with_callbacks = Some 42 \<and>
   (\<exists>s' tr. session two_channels 2 with_callbacks (replicate 14 (5, 0)) = Inr (s', tr) \<and>
            length (scan_calls tr) = 2 \<and> length (finalized tr) = 4 \<and>
            map fst (scan_calls tr) = [42, 42])"
proof -
  let ?s = last_reading_session
  have h1: "session_ok ?s \<and> channel_scan_cb ?s = Some 42"
    by (simp add: session_ok_def last_reading_session_def two_channels_def)
  have h2: "finalizes ?s" by (simp add: finalizes_def last_reading_session_def)
  have h3: "unat (chan_i ?s) + 1 = unat (chan_count ?s)" by (simp add: last_reading_session_def)
  have h4: "0 < unat (2 :: u8) \<and> unat (2 :: u8) \<le> length two_channels \<and>
            channel_scan_cb with_callbacks = Some 42"
    by (simp add: two_channels_def with_callbacks_def attach_scan_callback_def)
  note T = scan_callback_once_per_scan[of ?s 42 6 0 2 two_channels with_callbacks
             "replicate 14 (5, 0)"]
  from T h1 obtain s' tr where a: "ADC_vect 6 0 ?s = Inr (s', tr)" by blast
  have "events_of (ADC_vect 6 0 ?s)
          = Some [WriteSample 1 6, WriteSn 1 1, CallChannelCb 41 1 6, WriteChanI 2,
                  CallScanCb 42 [5, 6], WriteChanI 0]"
    by code_simp
  then have a': "ADC_vect 6 0 ?s
          = Inr (s', [WriteSample 1 6, WriteSn 1 1, CallChannelCb 41 1 6, WriteChanI 2,
                      CallScanCb 42 [5, 6], WriteChanI 0])"
    using a by (simp add: events_of_def)
  from T h4 obtain s'' tr' where b:
    "session two_channels 2 with_callbacks (replicate 14 (5, 0)) = Inr (s'', tr')"
    "length (scan_calls tr') = length (finalized tr') div unat (2 :: u8)"
    "\<forall>c\<in>set (scan_calls tr'). fst c = 42"
    by blast
  have "map_option (\<lambda>t. length (finalized t))
          (events_of (session two_channels 2 with_callbacks (replicate 14 (5, 0)))) = Some 4"
    by code_simp
  then have f: "length (finalized tr') = 4" using b(1) by (simp add: events_of_def)
  then have n: "length (scan_calls tr') = 2" using b(2) by simp
  then obtain c1 c2 where "scan_calls tr' = [c1, c2]"
    by (cases "scan_calls tr'"; cases "tl (scan_calls tr')") auto
  then have "map fst (scan_calls tr') = [42, 42]" using b(3) by simp
  then have e: "\<exists>s' tr. session two_channels 2 with_callbacks (replicate 14 (5, 0))
                    = Inr (s', tr) \<and>
            length (scan_calls tr) = 2 \<and> length (finalized tr) = 4 \<and>
            map fst (scan_calls tr) = [42, 42]"
    using b(1) f n by (intro exI[of _ s''] exI[of _ tr']) simp
  have d: "\<exists>s'. ADC_vect 6 0 ?s
          = Inr (s', [WriteSample 1 6, WriteSn 1 1, CallChannelCb 41 1 6, WriteChanI 2,
                      CallScanCb 42 [5, 6], WriteChanI 0])"
    using a' by blast
  show ?thesis using h1 h2 h3 h4 d e by (intro conjI) simp_all
qed

text \<open>
  C5. In every run of the handler that finalizes a channel, the sample is stored into the
  channel's slot before the channel's sequence number is incremented. Consequently, at every
  point of the run (after any number \<open>k\<close> of its events), a slot whose sequence number
  already differs from the one before the run holds the sample the run publishes. The
  stores of the trace are exactly the changes of the two arrays.
\<close>

theorem sample_stored_before_sequence_number:
  assumes "session_ok s"
  shows "\<exists>s' tr. ADC_vect lo hi s = Inr (s', tr) \<and>
           replay (sn s, sample s) tr = (sn s', sample s') \<and>
           (finalizes s \<longrightarrow>
              (\<exists>rest. tr = WriteSample (unat (chan_i s)) (sample s' ! unat (chan_i s))
                            # WriteSn (unat (chan_i s)) (sn s ! unat (chan_i s) + 1) # rest \<and>
                      (\<forall>e\<in>set rest. \<not> is_store e))) \<and>
           (\<forall>k \<le> length tr. \<forall>j < length (sn s).
              fst (replay (sn s, sample s) (take k tr)) ! j \<noteq> sn s ! j \<longrightarrow>
              snd (replay (sn s, sample s) (take k tr)) ! j = sample s' ! j)"
proof (cases "finalizes s")
  case False
  then show ?thesis using ADC_vect_quiet[OF assms False, of lo hi] by auto
next
  case True
  let ?i = "unat (chan_i s)"
  obtain s' v where s': "ADC_vect lo hi s = Inr (s', final_events s v)"
    "sn s' = (sn s)[?i := sn s ! ?i + 1]" "sample s' = (sample s)[?i := v]"
    using ADC_vect_loud[OF assms True, of lo hi] by blast
  obtain rest where rest: "final_events s v = WriteSample ?i v # WriteSn ?i (sn s ! ?i + 1) # rest"
    "\<forall>e\<in>set rest. \<not> is_store e"
    using final_events_shape[of s v] by blast
  note rp = replay_take_final[OF rest, of "sn s" "sample s"]
  have i: "?i < length (sample s)"
    using assms by (simp add: session_ok_def split: option.splits)
  have v: "sample s' ! ?i = v" using s'(3) i by simp
  have full: "replay (sn s, sample s) (final_events s v) = (sn s', sample s')"
    using rp[of "length (final_events s v)"] rest(1) s'(2,3) by simp
  have mid: "\<forall>k \<le> length (final_events s v). \<forall>j < length (sn s).
              fst (replay (sn s, sample s) (take k (final_events s v))) ! j \<noteq> sn s ! j \<longrightarrow>
              snd (replay (sn s, sample s) (take k (final_events s v))) ! j = sample s' ! j"
    using s'(3) by (simp add: rp)
  show ?thesis
    using s'(1) full mid rest v True
    by (intro exI[of _ s'] exI[of _ "final_events s v"]) simp
qed

theorem sample_stored_before_sequence_number_witness:
  "session_ok last_reading_session \<and> finalizes last_reading_session \<and>
   (\<exists>s' tr. ADC_vect 6 0 last_reading_session = Inr (s', tr) \<and>
      take 2 tr = [WriteSample 1 6, WriteSn 1 1] \<and>
      replay ([1, 0], [5, 0]) (take 1 tr) = ([1, 0], [5, 6]) \<and>
      replay ([1, 0], [5, 0]) (take 2 tr) = ([1, 1], [5, 6]) \<and>
      replay ([1, 0], [5, 0]) tr = (sn s', sample s') \<and> sample s' ! 1 = 6)"
proof -
  let ?s = last_reading_session
  have ok: "session_ok ?s" by (simp add: session_ok_def last_reading_session_def two_channels_def)
  have fin: "finalizes ?s" by (simp add: finalizes_def last_reading_session_def)
  obtain s' tr where t: "ADC_vect 6 0 ?s = Inr (s', tr)"
    "replay (sn ?s, sample ?s) tr = (sn s', sample s')"
    using sample_stored_before_sequence_number[OF ok, of 6 0] by blast
  have "events_of (ADC_vect 6 0 ?s)
          = Some [WriteSample 1 6, WriteSn 1 1, CallChannelCb 41 1 6, WriteChanI 2,
                  CallScanCb 42 [5, 6], WriteChanI 0]"
    by code_simp
  then have tr: "tr = [WriteSample 1 6, WriteSn 1 1, CallChannelCb 41 1 6, WriteChanI 2,
                  CallScanCb 42 [5, 6], WriteChanI 0]"
    using t(1) by (simp add: events_of_def)
  have arrays: "sn ?s = [1, 0]" "sample ?s = [5, 0]" by (simp_all add: last_reading_session_def)
  have "sample s' = [5, 6]" using t(2) by (simp add: tr arrays)
  then have "sample s' ! 1 = 6" by simp
  then show ?thesis using ok fin t arrays by (auto simp: tr)
qed

text \<open>
  C6, as stated: the number of conversions needed to complete one pass over the table is the
  sum over the channels of one settling conversion plus the channel's count of readings.
  The handler spends one conversion more per channel, in the selecting state. For the two
  channels of depth 0 and 1 the stated number is 5, and after 5 conversions only channel 0
  has been published; the pass is complete after 7.
\<close>

theorem claimed_scan_events_too_few:
  "claimed_scan_events two_channels = 5 \<and>
   map_option finalized
     (events_of (session two_channels 2 getInstance
        (replicate (claimed_scan_events two_channels) (5, 0)))) = Some [0] \<and>
   map_option finalized
     (events_of (session two_channels 2 getInstance (replicate 7 (5, 0)))) = Some [0, 1]"
proof -
  have c: "claimed_scan_events two_channels = 5"
    by (simp add: claimed_scan_events_def two_channels_def)
  have "map_option finalized
     (events_of (session two_channels 2 getInstance (replicate 5 (5, 0)))) = Some [0]"
    by code_simp
  moreover have "map_option finalized
     (events_of (session two_channels 2 getInstance (replicate 7 (5, 0)))) = Some [0, 1]"
    by code_simp
  ultimately show ?thesis using c by simp
qed

text \<open>
  C6, amended: the number of conversions needed to complete one pass over the table is the
  sum over the channels of one selecting conversion, one settling conversion and the
  channel's count of readings \<open>2 ^ k\<close>. After \<^verbatim>\<open>begin\<close> with \<open>N \<ge> 1\<close> channels and that
  many conversions, whatever the readings, the channels \<open>0, ..., N - 1\<close> have been published
  once each, and after any smaller number of conversions they have not.
\<close>

theorem scan_events_complete_one_scan:
  assumes "0 < unat n" and "unat n \<le> length channel_config"
    and "length rs = scan_events (take (unat n) channel_config)"
  shows "scan_events (take (unat n) channel_config)
           = sum_list (map (\<lambda>c. 1 + 1 + 2 ^ unat (sample_count_log2 c))
                        (take (unat n) channel_config)) \<and>
         (\<forall>m \<le> length rs. \<exists>s' tr.
            session channel_config n s0 (take m rs) = Inr (s', tr) \<and>
            (finalized tr = [0..<unat n]) = (m = length rs))"
proof (intro conjI allI impI)
  show "scan_events (take (unat n) channel_config)
           = sum_list (map (\<lambda>c. 1 + 1 + 2 ^ unat (sample_count_log2 c))
                        (take (unat n) channel_config))"
    by (simp add: scan_events_def window_events_def[abs_def])
next
  fix m assume m: "m \<le> length rs"
  let ?cfg = "take (unat n) channel_config"
  obtain s where s: "ScanADC_begin channel_config n s0 = Inr s" "session_ok s"
    "state s = ISR_STATE_INIT" "chan_i s = 0" "config s = Some ?cfg"
    using ScanADC_begin_ok[OF assms(1,2), of s0] by blast
  have l: "length rs = sum_list (map window_events (drop (unat (chan_i s)) ?cfg))"
    using assms(3) s(4) by (simp add: scan_events_def)
  have n: "length ?cfg = unat n" using assms(2) by simp
  obtain s' tr s1 tr1 where r:
    "conversions s rs = Inr (s', tr)" "finalized tr = [0..<unat n]"
    "conversions s (butlast rs) = Inr (s1, tr1)" "finalized tr1 = [0..<unat n - 1]"
    using scan_run[OF s(2,3,5) l] s(4) n by auto
  show "\<exists>s' tr. session channel_config n s0 (take m rs) = Inr (s', tr) \<and>
            (finalized tr = [0..<unat n]) = (m = length rs)"
  proof (cases "m = length rs")
    case True
    then show ?thesis using r(1,2) s(1) by (simp add: session_def)
  next
    case False
    then have "m < length rs" using m by simp
    then have tk: "take m rs = take m (butlast rs)" by (simp add: take_butlast)
    obtain s2 tr2 tr3 where p: "conversions s (take m (butlast rs)) = Inr (s2, tr2)"
      "tr1 = tr2 @ tr3"
      using conversions_take[OF r(3), of m] by blast
    have "length (finalized tr2) + length (finalized tr3) = unat n - 1"
      using r(4) p(2) by (metis finalized_append length_append length_upt minus_nat.diff_0)
    then have "length (finalized tr2) \<noteq> length [0..<unat n]" using assms(1) by simp
    then have "finalized tr2 \<noteq> [0..<unat n]" by metis
    then show ?thesis using p(1) tk s(1) False by (simp add: session_def)
  qed
qed

theorem scan_events_complete_one_scan_witness:
  "0 < unat (2 :: u8) \<and> unat (2 :: u8) \<le> length two_channels \<and>
   length (replicate 7 (5 :: u8, 0 :: u8)) = scan_events (take (unat (2 :: u8)) two_channels) \<and>
   (\<exists>s' tr. session two_channels 2 getInstance (replicate 7 (5, 0)) = Inr (s', tr) \<and>
            finalized tr = [0, 1]) \<and>
   (\<exists>s' tr. session two_channels 2 getInstance (replicate 6 (5, 0)) = Inr (s', tr) \<and>
            finalized tr \<noteq> [0, 1])"
proof -
  have h1: "0 < unat (2 :: u8)" and h2: "unat (2 :: u8) \<le> length two_channels"
    by (simp_all add: two_channels_def)
  have h3: "length (replicate 7 (5 :: u8, 0 :: u8))
              = scan_events (take (unat (2 :: u8)) two_channels)"
    by (simp add: scan_events_def window_events_def two_channels_def)
  note T = scan_events_complete_one_scan[OF h1 h2 h3, of getInstance, THEN conjunct2, rule_format]
  have u: "[0..<unat (2 :: u8)] = [0, 1]" by (simp add: upt_rec)
  have a: "\<exists>s' tr. session two_channels 2 getInstance (replicate 7 (5, 0)) = Inr (s', tr) \<and>
            finalized tr = [0, 1]"
    using T[of 7, unfolded u] by simp
  have "take 6 (replicate 7 (5 :: u8, 0 :: u8)) = replicate 6 (5, 0)" by simp
  then have b: "\<exists>s' tr. session two_channels 2 getInstance (replicate 6 (5, 0)) = Inr (s', tr) \<and>
            finalized tr \<noteq> [0, 1]"
    using T[of 6, unfolded u] by simp
  show ?thesis using h1 h2 h3 a b by blast
qed

text \<open>
  C7. If \<^verbatim>\<open>begin\<close> is called with channel count 0, neither \<^verbatim>\<open>begin\<close> nor the handler
  reads a channel descriptor from the empty table. On the code, \<^verbatim>\<open>begin\<close> with count 0
  reads \<^verbatim>\<open>config[0].mux\<close> from the table of no entries when it programs \<^verbatim>\<open>ADMUX\<close>,
  whatever the caller's table and the object; and the handler, in the selecting state over
  an empty table, reads \<^verbatim>\<open>config[0]\<close> as well.
\<close>

theorem begin_without_channels_reads_descriptor:
  "ScanADC_begin channel_config 0 s = Inl (OutOfBounds 0 0) \<and>
   ADC_vect lo hi (s\<lparr>config := Some [], chan_count := 0, chan_i := 0,
                     state := ISR_STATE_INIT\<rparr>) = Inl (OutOfBounds 0 0)"
  by (simp add: ScanADC_begin_def ScanADC_end_def ADC_vect_def config_at_def Let_def)

text \<open>
  C8. Each operation of the application that suppresses the conversion-complete interrupt
  (\<^verbatim>\<open>get_sample\<close>, \<^verbatim>\<open>attach_channel_callback\<close>, \<^verbatim>\<open>attach_scan_callback\<close>) leaves
  \<^verbatim>\<open>ADCSRA\<close>, and with it the interrupt-enable bit, as it found it, and changes nothing
  else of the object, except that an attach operation installs its one callback.
  \<^verbatim>\<open>get_sample\<close> is taken on a live table and a channel inside it.
\<close>

theorem suppression_restores_and_frames:
  "(config s \<noteq> None \<and> unat channel < length (sample s) \<longrightarrow>
      get_sample channel s = Inr (sample s ! unat channel, s)) \<and>
   attach_channel_callback cb s = s\<lparr>channel_cb := cb\<rparr> \<and>
   attach_scan_callback cb s = s\<lparr>channel_scan_cb := cb\<rparr> \<and>
   ADCSRA (attach_channel_callback cb s) = ADCSRA s \<and>
   ADCSRA (attach_scan_callback cb s) = ADCSRA s \<and>
   bit (ADCSRA (attach_channel_callback cb s)) ADIE = bit (ADCSRA s) ADIE \<and>
   bit (ADCSRA (attach_scan_callback cb s)) ADIE = bit (ADCSRA s) ADIE"
  by (simp add: get_sample_def attach_channel_callback_def attach_scan_callback_def Let_def)

theorem suppression_restores_and_frames_witness:
  "config (depth2_session\<lparr>ADCSRA := 0\<rparr>) \<noteq> None \<and>
   unat (0 :: u8) < length (sample (depth2_session\<lparr>ADCSRA := 0\<rparr>)) \<and>
   get_sample 0 (depth2_session\<lparr>ADCSRA := 0\<rparr>) = Inr (0, depth2_session\<lparr>ADCSRA := 0\<rparr>) \<and>
   \<not> bit (ADCSRA (attach_channel_callback (Some 41) (depth2_session\<lparr>ADCSRA := 0\<rparr>))) ADIE \<and>
   bit (ADCSRA (attach_scan_callback (Some 42) depth2_session)) ADIE"
proof -
  let ?s = "depth2_session\<lparr>ADCSRA := 0\<rparr>"
  have h: "config ?s \<noteq> None \<and> unat (0 :: u8) < length (sample ?s)"
    by (simp add: depth2_session_def)
  have v: "sample ?s ! unat (0 :: u8) = 0" by (simp add: depth2_session_def)
  have a: "\<not> bit (ADCSRA ?s) ADIE" by simp
  have b: "bit (ADCSRA depth2_session) ADIE" by (simp add: depth2_session_def ADIE_def)
  note A = suppression_restores_and_frames[of ?s 0 "Some 41"]
  note B = suppression_restores_and_frames[of depth2_session 0 "Some 42"]
  from A h have "get_sample 0 ?s = Inr (sample ?s ! unat (0 :: u8), ?s)" by blast
  then have g: "get_sample 0 ?s = Inr (0, ?s)" by (simp only: v)
  from A a have c: "\<not> bit (ADCSRA (attach_channel_callback (Some 41) ?s)) ADIE" by blast
  from B b have d: "bit (ADCSRA (attach_scan_callback (Some 42) depth2_session)) ADIE" by blast
  show ?thesis using h g c d by blast
qed

text \<open>
  C9. For a channel of depth \<open>k \<le> 15\<close> and raw readings of at most 1023 each (the
  converter's ten bits): the 16-bit target count is \<open>2 ^ k\<close> without overflow; the 32-bit
  accumulator holds the exact sum after any number of the window's readings, with the bias
  added it is at most \<open>32768 * 1023 + 16384\<close> and still exact; and the finalized average
  is at most 1023, so its cast to the 16-bit sample loses nothing.
\<close>

theorem ten_bit_readings_never_overflow:
  assumes "session_ok s" and "state s = ISR_STATE_INIT" and "config s = Some cfg"
    and "c = cfg ! unat (chan_i s)" and "k = unat (sample_count_log2 c)"
    and "length rs = 2 ^ k"
    and "\<forall>r\<in>set rs. unat (adc_reading (fst r) (snd r)) \<le> 1023"
  shows "k \<le> 15 \<and>
         (\<forall>m < length rs. \<exists>s1.
            conversions s (r0 # r1 # take m rs) = Inr (s1, []) \<and>
            unat (sample_cnt_target s1) = 2 ^ k \<and>
            unat (sample_accumulator s1) = readings_sum (take m rs)) \<and>
         readings_sum rs + 2 ^ k div 2 \<le> 32768 * 1023 + 16384 \<and>
         (\<exists>s1 s' a tr.
            conversions s (r0 # r1 # butlast rs) = Inr (s1, []) \<and>
            unat (sample_accumulator s1 + ucast (adc_reading (fst (last rs)) (snd (last rs))))
              = readings_sum rs \<and>
            unat (sample_accumulator s1 + ucast (adc_reading (fst (last rs)) (snd (last rs)))
                    + ucast (drop_bit 1 (sample_cnt_target s1)))
              = readings_sum rs + 2 ^ k div 2 \<and>
            a = final_accumulator c (sample_cnt_target s1)
                  (sample_accumulator s1 + ucast (adc_reading (fst (last rs)) (snd (last rs)))) \<and>
            unat a \<le> 1023 \<and>
            ADC_vect (fst (last rs)) (snd (last rs)) s1
              = Inr (s', WriteSample (unat (chan_i s)) (ucast a) # tr) \<and>
            sample s' ! unat (chan_i s) = ucast a \<and>
            unat (ucast a :: u16) = unat a)"
proof (intro conjI allI impI)
  show "k \<le> 15" using assms(5) log2_less[of "sample_count_log2 c"] by simp
next
  fix m assume m: "m < length rs"
  have i: "unat (chan_i s) < length cfg" using assms(1,3) by (simp add: session_ok_def)
  have p: "(2::nat) ^ k \<le> 32768" using assms(5) two_power_log2 by simp
  have lt: "length (take m rs) < 2 ^ unat (sample_count_log2 c)" using m assms(5,6) by simp
  have run: "conversions s (r0 # r1 # take m rs) = Inr (accumulating s c (take m rs), [])"
    using assms(2,3) i assms(4) lt by (rule window_prefix)
  have "length (take m rs) \<le> 32768" using m assms(6) p by simp
  then have "unat (sample_accumulator (accumulating s c (take m rs))) = readings_sum (take m rs)"
    by (rule accumulating_acc)
  moreover have "unat (sample_cnt_target (accumulating s c (take m rs))) = 2 ^ k"
    using assms(5) by (simp only: accumulating_target)
  ultimately show "\<exists>s1. conversions s (r0 # r1 # take m rs) = Inr (s1, []) \<and>
            unat (sample_cnt_target s1) = 2 ^ k \<and>
            unat (sample_accumulator s1) = readings_sum (take m rs)"
    using run by blast
next
  have p: "(2::nat) ^ k \<le> 32768" using assms(5) two_power_log2 by simp
  have "readings_sum rs \<le> 2 ^ k * 1023" using readings_sum_le[OF assms(7)] assms(6) by simp
  then show "readings_sum rs + 2 ^ k div 2 \<le> 32768 * 1023 + 16384" using p by simp
next
  let ?bl = "butlast rs" and ?r = "last rs"
  let ?a = "accumulating s c ?bl"
  let ?x = "sample_accumulator ?a + ucast (adc_reading (fst ?r) (snd ?r))"
  obtain s' v where w:
    "conversions s (r0 # r1 # ?bl) = Inr (?a, [])"
    "ADC_vect (fst ?r) (snd ?r) ?a = Inr (s', final_events s v)"
    "v = ucast (final_accumulator c (sample_cnt_target ?a) ?x)"
    "sample s' = (sample s)[unat (chan_i s) := v]"
    using window_full[OF assms(1-6), of r0 r1] by blast
  have ne: "rs \<noteq> []" using assms(6) by auto
  have p: "(2::nat) ^ k \<le> 32768" using assms(5) two_power_log2 by simp
  have "length ?bl < 32768" using assms(6) ne p by simp
  then have "unat ?x = readings_sum (?bl @ [?r])" by (rule accumulating_next)
  then have acc: "unat ?x = readings_sum rs" using ne by simp
  have tgt: "unat (sample_cnt_target ?a) = 2 ^ k" using assms(5) by (simp only: accumulating_target)
  have b10: "readings_sum rs \<le> 2 ^ k * 1023"
    using readings_sum_le[OF assms(7)] assms(6) by simp
  then have b16: "readings_sum rs \<le> 2 ^ k * 65535" by simp
  have bias: "unat (?x + ucast (drop_bit 1 (sample_cnt_target ?a))) = readings_sum rs + 2 ^ k div 2"
    using assms(5) tgt acc b16 by (rule biased_unat)
  define a where "a = final_accumulator c (sample_cnt_target ?a) ?x"
  have "unat a = rounded_average k (readings_sum rs)"
    unfolding a_def using assms(5) tgt acc b16 by (rule final_accumulator_unat)
  then have small: "unat a \<le> 1023" using rounded_average_le[OF b10] by simp
  then have cast: "unat (ucast a :: u16) = unat a" by (simp add: unat_ucast_mod)
  have i: "unat (chan_i s) < length (sample s)"
    using assms(1,3) by (simp add: session_ok_def)
  have slot: "sample s' ! unat (chan_i s) = ucast a" using w(3,4) i a_def by simp
  have "final_events s v = WriteSample (unat (chan_i s)) (ucast a) # tl (final_events s v)"
    using w(3) a_def by (simp add: final_events_def)
  then have step: "ADC_vect (fst ?r) (snd ?r) ?a
                = Inr (s', WriteSample (unat (chan_i s)) (ucast a) # tl (final_events s v))"
    using w(2) by simp
  show "\<exists>s1 s' a tr.
            conversions s (r0 # r1 # butlast rs) = Inr (s1, []) \<and>
            unat (sample_accumulator s1 + ucast (adc_reading (fst (last rs)) (snd (last rs))))
              = readings_sum rs \<and>
            unat (sample_accumulator s1 + ucast (adc_reading (fst (last rs)) (snd (last rs)))
                    + ucast (drop_bit 1 (sample_cnt_target s1)))
              = readings_sum rs + 2 ^ k div 2 \<and>
            a = final_accumulator c (sample_cnt_target s1)
                  (sample_accumulator s1 + ucast (adc_reading (fst (last rs)) (snd (last rs)))) \<and>
            unat a \<le> 1023 \<and>
            ADC_vect (fst (last rs)) (snd (last rs)) s1
              = Inr (s', WriteSample (unat (chan_i s)) (ucast a) # tr) \<and>
            sample s' ! unat (chan_i s) = ucast a \<and>
            unat (ucast a :: u16) = unat a"
    using w(1) acc bias a_def small step slot cast
    by (intro exI[of _ ?a] exI[of _ s'] exI[of _ a] exI[of _ "tl (final_events s v)"]) simp
qed

theorem ten_bit_readings_never_overflow_witness:
  "session_ok depth2_session \<and> state depth2_session = ISR_STATE_INIT \<and>
   unat (adc_reading 255 3) \<le> 1023 \<and>
   (\<exists>s1 s' (a :: u32) tr.
      conversions depth2_session [(0, 0), (0, 0), (255, 3), (255, 3), (255, 3)] = Inr (s1, []) \<and>
      unat (sample_accumulator s1 + ucast (adc_reading 255 3)) = 4092 \<and>
      unat (sample_accumulator s1 + ucast (adc_reading 255 3)
              + ucast (drop_bit 1 (sample_cnt_target s1))) = 4094 \<and>
      unat a \<le> 1023 \<and>
      ADC_vect 255 3 s1 = Inr (s', WriteSample 0 (ucast a) # tr) \<and>
      unat (ucast a :: u16) = unat a)"
proof -
  let ?c = "\<lparr>mux = 7, sample_count_log2 = 2\<rparr>"
  let ?rs = "[(255, 3), (255, 3), (255, 3), (255 :: u8, 3 :: u8)]"
  have h1: "session_ok depth2_session" by (simp add: depth2_session_def session_ok_def)
  have h2: "state depth2_session = ISR_STATE_INIT" by (simp add: depth2_session_def)
  have h3: "config depth2_session = Some [?c]" by (simp add: depth2_session_def)
  have h4: "?c = [?c] ! unat (chan_i depth2_session)" by (simp add: depth2_session_def)
  have h5: "(2::nat) = unat (sample_count_log2 ?c)" by simp
  have h6: "length ?rs = 2 ^ 2" by simp
  have h7: "\<forall>r\<in>set ?rs. unat (adc_reading (fst r) (snd r)) \<le> 1023"
    by (simp add: adc_reading_def)
  have r: "unat (chan_i depth2_session) = 0" by (simp add: depth2_session_def)
  have e: "butlast ?rs = [(255, 3), (255, 3), (255, 3)]" and l: "last ?rs = (255, 3)"
    by simp_all
  have q: "readings_sum ?rs = 4092" by (simp add: readings_sum_def adc_reading_def)
  have p: "(4092 :: nat) + 2 ^ 2 div 2 = 4094" by simp
  note T = ten_bit_readings_never_overflow[OF h1 h2 h3 h4 h5 h6 h7, of "(0, 0)" "(0, 0)",
             THEN conjunct2, THEN conjunct2, THEN conjunct2,
             unfolded e l q p r fst_conv snd_conv]
  from T obtain s1 s' and a :: u32 and tr where t:
    "conversions depth2_session [(0, 0), (0, 0), (255, 3), (255, 3), (255, 3)] = Inr (s1, [])"
    "unat (sample_accumulator s1 + ucast (adc_reading 255 3)) = 4092"
    "unat (sample_accumulator s1 + ucast (adc_reading 255 3)
              + ucast (drop_bit 1 (sample_cnt_target s1))) = 4094"
    "unat a \<le> 1023"
    "ADC_vect 255 3 s1 = Inr (s', WriteSample 0 (ucast a) # tr)"
    "unat (ucast a :: u16) = unat a"
    by blast
  have h8: "unat (adc_reading 255 3) \<le> 1023" by (simp add: adc_reading_def)
  show ?thesis using h1 h2 h8 t by blast
qed



end
